theory Spec2Isabelle
  imports Complex_Main
begin

section \<open>The value model\<close>

text \<open>
  The built-in operations. In the source a Native value carries a closure bound to a
  method of the machine (\<^verbatim>\<open>this.add.bind(this)\<close> and so on); the model names the
  method instead.
\<close>

datatype native = NAdd | NSub | NMul | NDiv | NLt | NIf | NDef | NExch | NPuts

text \<open>
  \<^verbatim>\<open>type Value\<close> of \<^verbatim>\<open>StackLang.ts\<close>. The number type \<open>'n\<close> stands for the
  host's numbers: the machine only ever uses its \<open>+\<close>, \<open>-\<close>, \<open>*\<close>, \<open>/\<close>, \<open><\<close>,
  \<open>0\<close> and \<open>1\<close>, and no law of arithmetic is assumed about them.

  A scope is a plain object, so reading a property of it also finds what every object
  inherits from \<^verbatim>\<open>Object.prototype\<close>. Such an inherited host object is not a Value
  of the language (it has no \<^verbatim>\<open>kind\<close>), but the machine can fetch it and put it on
  the stack; \<open>Host k\<close> stands for the object inherited under the key \<open>k\<close>.
\<close>

datatype 'n val =
    Num 'n
  | Operator string
  | Symbol string
  | Block "'n val list"
  | Native native
  | Host string

type_synonym 'n scope = "string \<rightharpoonup> 'n val"

text \<open>\<^verbatim>\<open>type VmState\<close>: the three arrays, each in array order (index 0 first).\<close>

record 'n VmState =
  stack :: "'n val list"
  vars :: "'n scope list"
  blocks :: "'n val list list"

text \<open>
  \<^verbatim>\<open>type VmEvent\<close>. An event of the source holds a reference to the machine's state;
  the consumer reads it when the generator hands the event over, before the machine
  runs on, so the model stores the state as it is at that moment.
\<close>

datatype 'n VmEvent =
    StateEv "'n VmState"
  | PutsEv "'n val"
  | StackPopEv "'n VmState" "'n val"

text \<open>The errors the machine throws, one constructor for each message.\<close>

datatype error =
    StackPopError                \<comment> \<open>\<^verbatim>\<open>Stack pop error\<close>\<close>
  | BlockStackUnderflow          \<comment> \<open>\<^verbatim>\<open>Block stack underflow\<close>\<close>
  | NotDefined string            \<comment> \<open>\<^verbatim>\<open>${code.op} is not a defined operation\<close>\<close>
  | ExpectNumNum string          \<comment> \<open>\<^verbatim>\<open>Expect Num Num +, ...\<close>, with the operator the message names\<close>
  | ExpectBlock                  \<comment> \<open>\<^verbatim>\<open>Expect block (...)\<close>\<close>
  | ExpectNum                    \<comment> \<open>\<^verbatim>\<open>Expect num (...)\<close>\<close>
  | ExpectSymbol                 \<comment> \<open>\<^verbatim>\<open>Expect symbol (...)\<close>\<close>
  | HostTypeError                \<comment> \<open>the host's TypeError on a property of \<^verbatim>\<open>undefined\<close>\<close>

text \<open>
  How a generator ends: it returns with the machine in a state, it throws, or it never
  returns (the recursion of \<^verbatim>\<open>eval\<close> through user-defined blocks need not end; the
  model bounds the depth of nested calls and reports \<open>Diverge\<close> when the bound is
  reached). A result is the list of events yielded until then, with the way it ended.
\<close>

datatype 'n outcome = Ok "'n VmState" | Fail error | Diverge

type_synonym 'n result = "'n VmEvent list \<times> 'n outcome"

text \<open>\<open>yield evs r\<close>: the events \<open>evs\<close> are yielded, then the computation \<open>r\<close> runs.\<close>

fun yield :: "'n VmEvent list \<Rightarrow> 'n result \<Rightarrow> 'n result" where
  "yield evs (evs', out) = (evs @ evs', out)"

text \<open>
  \<open>andThen r k\<close>: statement sequencing. A throw or a non-returning call in \<open>r\<close> ends the
  whole computation with the events yielded so far; nothing in the machine catches.
\<close>

fun andThen :: "'n result \<Rightarrow> ('n VmState \<Rightarrow> 'n result) \<Rightarrow> 'n result" where
  "andThen (evs, Ok s) k = yield evs (k s)"
| "andThen (evs, Fail e) k = (evs, Fail e)"
| "andThen (evs, Diverge) k = (evs, Diverge)"

text \<open>\<^verbatim>\<open>yield this.stateEvent(); return\<close> at the end of a generator.\<close>

definition stateEvent :: "'n VmState \<Rightarrow> 'n result" where
  "stateEvent s = ([StateEv s], Ok s)"

text \<open>
  \<^verbatim>\<open>const v = this.state.stack.pop(); yield this.stackPopEvent(v);\<close>
  On an empty stack \<^verbatim>\<open>pop()\<close> gives \<^verbatim>\<open>undefined\<close> and \<^verbatim>\<open>stackPopEvent\<close>
  throws before anything is yielded. Otherwise the popped value is a defined one, so the
  tests \<^verbatim>\<open>v == null\<close> that follow in the source never fire.
\<close>

definition popThen ::
  "'n VmState \<Rightarrow> ('n val \<Rightarrow> 'n VmState \<Rightarrow> 'n result) \<Rightarrow> 'n result" where
  "popThen s k =
     (if stack s = [] then ([], Fail StackPopError)
      else let v = last (stack s); s' = s\<lparr>stack := butlast (stack s)\<rparr>
           in yield [StackPopEv s' v] (k v s'))"

text \<open>\<^verbatim>\<open>this.state.stack.push(v); yield this.stateEvent();\<close>\<close>

definition pushThen :: "'n val \<Rightarrow> 'n VmState \<Rightarrow> 'n result" where
  "pushThen v s = stateEvent (s\<lparr>stack := stack s @ [v]\<rparr>)"

section \<open>Scopes and lookup\<close>

text \<open>
  The own properties of \<^verbatim>\<open>Object.prototype\<close>, which every scope object
  (\<^verbatim>\<open>{}\<close> or the object literal of the base scope) inherits. None of them is
  \<^verbatim>\<open>null\<close> or \<^verbatim>\<open>undefined\<close>.
\<close>

definition objectPrototypeKeys :: "string list" where
  "objectPrototypeKeys =
     [''constructor'', ''hasOwnProperty'', ''isPrototypeOf'', ''propertyIsEnumerable'',
      ''toLocaleString'', ''toString'', ''valueOf'', ''__proto__'',
      ''__defineGetter__'', ''__defineSetter__'', ''__lookupGetter__'', ''__lookupSetter__'']"

text \<open>\<^verbatim>\<open>varMap[word]\<close>, with \<open>None\<close> for \<^verbatim>\<open>undefined\<close>.\<close>

definition getProp :: "'n scope \<Rightarrow> string \<Rightarrow> 'n val option" where
  "getProp varMap word =
     (case varMap word of
        Some v \<Rightarrow> Some v
      | None \<Rightarrow> if word \<in> set objectPrototypeKeys then Some (Host word) else None)"

text \<open>
  \<^verbatim>\<open>this.state.vars.toReversed().flatMap((varMap) => varMap[word] ?? [])[0] ?? null\<close>
\<close>

definition findVar :: "'n VmState \<Rightarrow> string \<Rightarrow> 'n val option" where
  "findVar s word =
     (case List.map_filter (\<lambda>varMap. getProp varMap word) (rev (vars s)) of
        [] \<Rightarrow> None
      | v # _ \<Rightarrow> Some v)"

section \<open>The native operators without recursion\<close>

text \<open>
  The shared body of \<^verbatim>\<open>add\<close>, \<^verbatim>\<open>sub\<close>, \<^verbatim>\<open>mul\<close>, \<^verbatim>\<open>div\<close> and \<^verbatim>\<open>lt\<close>:
  pop the right operand, pop the left operand, check both are Num, push the result.
  \<open>name\<close> is the operator the error message names.
\<close>

definition binary ::
  "string \<Rightarrow> ('n \<Rightarrow> 'n \<Rightarrow> 'n) \<Rightarrow> 'n VmState \<Rightarrow> 'n result" where
  "binary name f s =
     popThen s (\<lambda>right s1.
     popThen s1 (\<lambda>left s2.
       case (right, left) of
         (Num r, Num l) \<Rightarrow> pushThen (Num (f l r)) s2
       | _ \<Rightarrow> ([], Fail (ExpectNumNum name))))"

definition add :: "('n::plus) VmState \<Rightarrow> 'n result" where
  "add = binary ''+'' (\<lambda>l r. l + r)"

definition sub :: "('n::minus) VmState \<Rightarrow> 'n result" where
  "sub = binary ''-'' (\<lambda>l r. l - r)"

definition mul :: "('n::times) VmState \<Rightarrow> 'n result" where
  "mul = binary ''*'' (\<lambda>l r. l * r)"

definition div_native :: "('n::inverse) VmState \<Rightarrow> 'n result" where
  "div_native = binary ''/'' (\<lambda>l r. l / r)"

text \<open>The message of \<^verbatim>\<open>lt\<close> names \<^verbatim>\<open>/\<close>, as in the source.\<close>

definition lt :: "('n::{ord,zero,one}) VmState \<Rightarrow> 'n result" where
  "lt = binary ''/'' (\<lambda>l r. if l < r then 1 else 0)"

definition puts :: "'n VmState \<Rightarrow> 'n result" where
  "puts s = popThen s (\<lambda>v s1. ([PutsEv v], Ok s1))"

section \<open>Evaluation\<close>

text \<open>
  \<^verbatim>\<open>eval\<close>, the loops \<^verbatim>\<open>for (const v of values) yield* this.eval(v)\<close>, and the
  natives that call \<^verbatim>\<open>eval\<close>. The first argument bounds the depth of nested calls of
  \<^verbatim>\<open>eval\<close>: each call of \<open>eval\<close> takes one unit, and at depth \<open>0\<close> the result is
  \<open>Diverge\<close>.
\<close>

fun eval :: "nat \<Rightarrow> ('n::{plus,minus,times,inverse,ord,zero,one}) val \<Rightarrow> 'n VmState \<Rightarrow> 'n result"
  and evalAll :: "nat \<Rightarrow> 'n val list \<Rightarrow> 'n VmState \<Rightarrow> 'n result"
  and opIf :: "nat \<Rightarrow> 'n VmState \<Rightarrow> 'n result"
  and opDef :: "nat \<Rightarrow> 'n VmState \<Rightarrow> 'n result"
  and opExch :: "nat \<Rightarrow> 'n VmState \<Rightarrow> 'n result"
where
  "eval 0 code s = ([], Diverge)"
| "eval (Suc n) code s =
     (if blocks s \<noteq> [] then
        stateEvent (s\<lparr>blocks := butlast (blocks s) @ [last (blocks s) @ [code]]\<rparr>)
      else case code of
        Operator op \<Rightarrow>
          (case findVar s op of
             None \<Rightarrow> ([], Fail (NotDefined op))
           | Some (Block values) \<Rightarrow>
               andThen (andThen (stateEvent (s\<lparr>vars := vars s @ [Map.empty]\<rparr>))
                                (evalAll n values))
                       (\<lambda>s'. stateEvent (s'\<lparr>vars := butlast (vars s')\<rparr>))
           | Some (Native fn) \<Rightarrow>
               (case fn of
                  NAdd \<Rightarrow> add s
                | NSub \<Rightarrow> sub s
                | NMul \<Rightarrow> mul s
                | NDiv \<Rightarrow> div_native s
                | NLt \<Rightarrow> lt s
                | NIf \<Rightarrow> opIf n s
                | NDef \<Rightarrow> opDef n s
                | NExch \<Rightarrow> opExch n s
                | NPuts \<Rightarrow> puts s)
           | Some variableValue \<Rightarrow> pushThen variableValue s)
      | _ \<Rightarrow> pushThen code s)"
| "evalAll n [] s = ([], Ok s)"
| "evalAll n (v # vs) s = andThen (eval n v s) (evalAll n vs)"
| "opIf n s =
     popThen s (\<lambda>falseBranch s1.
       case falseBranch of
         Block falseValues \<Rightarrow>
           popThen s1 (\<lambda>trueBranch s2.
             case trueBranch of
               Block trueValues \<Rightarrow>
                 popThen s2 (\<lambda>cond s3.
                   case cond of
                     Block condValues \<Rightarrow>
                       andThen (evalAll n condValues s3) (\<lambda>s4.
                         popThen s4 (\<lambda>condResult s5.
                           case condResult of
                             Num c \<Rightarrow>
                               if c \<noteq> 0 then evalAll n trueValues s5
                               else evalAll n falseValues s5
                           | _ \<Rightarrow> ([], Fail ExpectNum)))
                   | _ \<Rightarrow> ([], Fail ExpectBlock))
             | _ \<Rightarrow> ([], Fail ExpectBlock))
       | _ \<Rightarrow> ([], Fail ExpectBlock))"
| "opDef n s =
     popThen s (\<lambda>value s1.
       andThen (eval n value s1) (\<lambda>s2.
         popThen s2 (\<lambda>evalResult s3.
           popThen s3 (\<lambda>symbol s4.
             case symbol of
               Symbol key \<Rightarrow>
                 if vars s4 = [] then ([], Fail HostTypeError)
                 else if getProp (last (vars s4)) key = None then
                   stateEvent
                     (s4\<lparr>vars := butlast (vars s4) @ [(last (vars s4))(key \<mapsto> evalResult)]\<rparr>)
                 else stateEvent s4
             | _ \<Rightarrow> ([], Fail ExpectSymbol)))))"
| "opExch n s =
     popThen s (\<lambda>last_value s1.
       popThen s1 (\<lambda>second s2.
         andThen (andThen (eval n second s2) (pushThen last_value)) (pushThen second)))"

text \<open>The equations of the three natives are unfolded only where a proof asks for them.\<close>

declare opIf.simps [simp del] opDef.simps [simp del] opExch.simps [simp del]

section \<open>Tokens\<close>

text \<open>
  \<^verbatim>\<open>Number.parseFloat\<close> belongs to the host language. It skips leading white space,
  takes the longest prefix of the rest that is a \<^verbatim>\<open>StrDecimalLiteral\<close> (an optional
  sign, then \<^verbatim>\<open>Infinity\<close>, or digits with an optional fraction and exponent, or a
  fraction starting with the point), and gives \<^verbatim>\<open>NaN\<close> exactly when there is no such
  prefix. Words are taken to be ASCII text.
\<close>

definition isDigit :: "char \<Rightarrow> bool" where
  "isDigit c = (c \<in> set ''0123456789'')"

definition isWhiteSpace :: "char \<Rightarrow> bool" where
  "isWhiteSpace c = (c \<in> set [CHR 0x09, CHR 0x0A, CHR 0x0B, CHR 0x0C, CHR 0x0D, CHR '' ''])"

text \<open>The longest \<^verbatim>\<open>ExponentPart\<close> at the start of the text, or nothing.\<close>

definition exponentPart :: "string \<Rightarrow> string" where
  "exponentPart t =
     (case t of
        [] \<Rightarrow> []
      | e # r \<Rightarrow>
          if e = CHR ''e'' \<or> e = CHR ''E'' then
            (case r of
               [] \<Rightarrow> []
             | c # r' \<Rightarrow>
                 if c = CHR ''+'' \<or> c = CHR ''-'' then
                   (if takeWhile isDigit r' = [] then [] else e # c # takeWhile isDigit r')
                 else
                   (if takeWhile isDigit r = [] then [] else e # takeWhile isDigit r))
          else [])"

text \<open>The longest \<^verbatim>\<open>StrUnsignedDecimalLiteral\<close> at the start of the text, if any.\<close>

definition unsignedPrefix :: "string \<Rightarrow> string option" where
  "unsignedPrefix t =
     (if take 8 t = ''Infinity'' then Some ''Infinity''
      else
        let ds = takeWhile isDigit t; r = dropWhile isDigit t
        in if ds \<noteq> [] then
             (case r of
                [] \<Rightarrow> Some ds
              | c # r' \<Rightarrow>
                  if c = CHR ''.'' then
                    Some (ds @ [c] @ takeWhile isDigit r' @ exponentPart (dropWhile isDigit r'))
                  else Some (ds @ exponentPart r))
           else
             (case r of
                [] \<Rightarrow> None
              | c # r' \<Rightarrow>
                  if c = CHR ''.'' \<and> takeWhile isDigit r' \<noteq> [] then
                    Some ([c] @ takeWhile isDigit r' @ exponentPart (dropWhile isDigit r'))
                  else None))"

definition floatPrefix :: "string \<Rightarrow> string option" where
  "floatPrefix word =
     (case dropWhile isWhiteSpace word of
        [] \<Rightarrow> None
      | c # r \<Rightarrow>
          if c = CHR ''+'' \<or> c = CHR ''-'' then map_option ((#) c) (unsignedPrefix r)
          else unsignedPrefix (c # r))"

text \<open>
  \<open>numOf\<close> is the host's reading of a decimal literal as a number. \<open>None\<close> stands for
  \<^verbatim>\<open>NaN\<close>, the only result that \<^verbatim>\<open>Number.isNaN\<close> accepts.
\<close>

definition parseFloat :: "(string \<Rightarrow> 'n) \<Rightarrow> string \<Rightarrow> 'n option" where
  "parseFloat numOf word = map_option numOf (floatPrefix word)"

text \<open>
  The value of a literal that is a row of decimal digits, as a rational; the concrete
  runs below use it for \<open>numOf\<close> (such small integers are exact in the host's numbers).
\<close>

definition digitsValue :: "string \<Rightarrow> rat" where
  "digitsValue w = foldl (\<lambda>a c. 10 * a + of_nat (of_char c - 48)) 0 w"

text \<open>\<^verbatim>\<open>String.prototype.split\<close> with a separator of one character.\<close>

fun split_str :: "char \<Rightarrow> string \<Rightarrow> string list" where
  "split_str sep [] = [[]]"
| "split_str sep (c # cs) =
     (if c = sep then [] # split_str sep cs
      else case split_str sep cs of
             w # ws \<Rightarrow> (c # w) # ws
           | [] \<Rightarrow> [[c]])"

section \<open>The machine's entry point and the driver\<close>

text \<open>\<^verbatim>\<open>Vm.parse\<close>\<close>

definition parse ::
  "nat \<Rightarrow> (string \<Rightarrow> 'n) \<Rightarrow> string \<Rightarrow>
   ('n::{plus,minus,times,inverse,ord,zero,one}) VmState \<Rightarrow> 'n result" where
  "parse n numOf word s =
     (if word = [] then stateEvent s
      else if word = ''{'' then stateEvent (s\<lparr>blocks := blocks s @ [[]]\<rparr>)
      else if word = ''}'' then
        (if blocks s = [] then ([StateEv s], Fail BlockStackUnderflow)
         else yield [StateEv (s\<lparr>blocks := butlast (blocks s)\<rparr>)]
                (eval n (Block (last (blocks s))) (s\<lparr>blocks := butlast (blocks s)\<rparr>)))
      else
        (case parseFloat numOf word of
           Some num \<Rightarrow> eval n (Num num) s
         | None \<Rightarrow>
             if hd word = CHR ''/'' then eval n (Symbol (tl word)) s
             else eval n (Operator word) s))"

text \<open>The state a fresh \<^verbatim>\<open>Vm\<close> starts in.\<close>

definition baseScope :: "'n scope" where
  "baseScope =
     [''+'' \<mapsto> Native NAdd, ''-'' \<mapsto> Native NSub, ''*'' \<mapsto> Native NMul,
      ''/'' \<mapsto> Native NDiv, ''<'' \<mapsto> Native NLt, ''if'' \<mapsto> Native NIf,
      ''def'' \<mapsto> Native NDef, ''exch'' \<mapsto> Native NExch, ''puts'' \<mapsto> Native NPuts]"

definition initialState :: "'n VmState" where
  "initialState = \<lparr>stack = [], vars = [baseScope], blocks = []\<rparr>"

text \<open>The two nested loops of \<^verbatim>\<open>StackLang.run\<close> visit these words in this order.\<close>

definition wordsOf :: "string \<Rightarrow> string list" where
  "wordsOf program = concat (map (split_str CHR '' '') (split_str CHR 0x0A program))"

fun parseAll ::
  "nat \<Rightarrow> (string \<Rightarrow> 'n) \<Rightarrow> string list \<Rightarrow>
   ('n::{plus,minus,times,inverse,ord,zero,one}) VmState \<Rightarrow> 'n result" where
  "parseAll n numOf [] s = ([], Ok s)"
| "parseAll n numOf (word # ws) s = andThen (parse n numOf word s) (parseAll n numOf ws)"

text \<open>
  \<^verbatim>\<open>StackLang.run\<close> on a fresh machine; \<open>n\<close> bounds the depth of calls under each
  word.
\<close>

definition run ::
  "nat \<Rightarrow> (string \<Rightarrow> 'n) \<Rightarrow> string \<Rightarrow>
   ('n::{plus,minus,times,inverse,ord,zero,one}) result" where
  "run n numOf program =
     yield [StateEv initialState] (parseAll n numOf (wordsOf program) initialState)"

section \<open>Observing a run\<close>

text \<open>The operand stack a run ends with, when it returns.\<close>

definition finalStack :: "'n result \<Rightarrow> 'n val list option" where
  "finalStack r = (case snd r of Ok s \<Rightarrow> Some (stack s) | Fail e \<Rightarrow> None | Diverge \<Rightarrow> None)"

text \<open>The error a run ends with, when it throws.\<close>

definition failure :: "'n result \<Rightarrow> error option" where
  "failure r = (case snd r of Ok s \<Rightarrow> None | Fail e \<Rightarrow> Some e | Diverge \<Rightarrow> None)"

text \<open>A result that did not run into the depth bound.\<close>

definition settled :: "'n result \<Rightarrow> bool" where
  "settled r \<longleftrightarrow> snd r \<noteq> Diverge"

text \<open>The states that a list of events shows, in order.\<close>

fun evStates :: "'n VmEvent list \<Rightarrow> 'n VmState list" where
  "evStates [] = []"
| "evStates (StateEv s # evs) = s # evStates evs"
| "evStates (PutsEv v # evs) = evStates evs"
| "evStates (StackPopEv s v # evs) = s # evStates evs"

text \<open>A scope that binds the nine operator names to their natives.\<close>

definition nativesBound :: "'n scope \<Rightarrow> bool" where
  "nativesBound sc \<longleftrightarrow>
     sc ''+'' = Some (Native NAdd) \<and> sc ''-'' = Some (Native NSub) \<and>
     sc ''*'' = Some (Native NMul) \<and> sc ''/'' = Some (Native NDiv) \<and>
     sc ''<'' = Some (Native NLt) \<and> sc ''if'' = Some (Native NIf) \<and>
     sc ''def'' = Some (Native NDef) \<and> sc ''exch'' = Some (Native NExch) \<and>
     sc ''puts'' = Some (Native NPuts)"

text \<open>
  How the scope chain of a later state relates to the chain \<open>vs\<close> a call started with.
  \<open>grows\<close>: the scopes under the top one of \<open>vs\<close> are as they were, the top one of
  \<open>vs\<close> has kept every binding it had, and further scopes may lie above it.
  \<open>settles\<close>: the same with no scope above.
\<close>

definition grows :: "'n scope list \<Rightarrow> 'n scope list \<Rightarrow> bool" where
  "grows vs vs' \<longleftrightarrow> (\<exists>upper above. vs' = butlast vs @ upper # above \<and> last vs \<subseteq>\<^sub>m upper)"

definition settles :: "'n scope list \<Rightarrow> 'n scope list \<Rightarrow> bool" where
  "settles vs vs' \<longleftrightarrow> (\<exists>upper. vs' = butlast vs @ [upper] \<and> last vs \<subseteq>\<^sub>m upper)"

text \<open>
  A result keeps track of the state \<open>s\<close> it started from: every state it shows has a
  chain grown from that of \<open>s\<close>, a state it returns with has a chain settled on that of
  \<open>s\<close>, and no block is open in any of them unless one was open in \<open>s\<close>.
\<close>

definition tracks :: "'n VmState \<Rightarrow> 'n result \<Rightarrow> bool" where
  "tracks s r \<longleftrightarrow>
     (\<forall>s' \<in> set (evStates (fst r)).
        grows (vars s) (vars s') \<and> (blocks s = [] \<longrightarrow> blocks s' = [])) \<and>
     (\<forall>s'. snd r = Ok s' \<longrightarrow>
        settles (vars s) (vars s') \<and> (blocks s = [] \<longrightarrow> blocks s' = []))"

text \<open>The part of \<open>tracks\<close> about the scope chain alone, for a starting chain \<open>vs\<close>.\<close>

definition follows :: "'n scope list \<Rightarrow> 'n result \<Rightarrow> bool" where
  "follows vs r \<longleftrightarrow>
     (\<forall>s' \<in> set (evStates (fst r)). grows vs (vars s')) \<and>
     (\<forall>s'. snd r = Ok s' \<longrightarrow> settles vs (vars s'))"

section \<open>Reverse Polish evaluation, as the specification words it\<close>

text \<open>
  Ordinary left-to-right evaluation of a row of number literals and the operators
  \<^verbatim>\<open>+ - * /\<close>, on a stack whose head is the top: a literal is pushed, an operator
  takes the right operand from the top and the left operand from under it and puts
  \<open>left OP right\<close> back. \<open>None\<close> when an operator finds fewer than two numbers. This
  definition follows the specification and is what the machine is compared with.
\<close>

fun rpn_spec :: "(string \<Rightarrow> 'n) \<Rightarrow> string list \<Rightarrow> ('n::{plus,minus,times,inverse}) list \<Rightarrow> 'n list option" where
  "rpn_spec numOf [] st = Some st"
| "rpn_spec numOf (w # ws) st =
     (if w = ''+'' then
        (case st of r # l # rest \<Rightarrow> rpn_spec numOf ws ((l + r) # rest) | _ \<Rightarrow> None)
      else if w = ''-'' then
        (case st of r # l # rest \<Rightarrow> rpn_spec numOf ws ((l - r) # rest) | _ \<Rightarrow> None)
      else if w = ''*'' then
        (case st of r # l # rest \<Rightarrow> rpn_spec numOf ws ((l * r) # rest) | _ \<Rightarrow> None)
      else if w = ''/'' then
        (case st of r # l # rest \<Rightarrow> rpn_spec numOf ws ((l / r) # rest) | _ \<Rightarrow> None)
      else rpn_spec numOf ws (numOf w # st))"

section \<open>Display of values\<close>

text \<open>\<^verbatim>\<open>Array.prototype.join(" ")\<close> on strings.\<close>

fun join_words :: "string list \<Rightarrow> string" where
  "join_words [] = []"
| "join_words [w] = w"
| "join_words (w # v # ws) = w @ '' '' @ join_words (v # ws)"

text \<open>
  \<^verbatim>\<open>serializeValue\<close> of the application. \<open>showNum\<close> is the host's conversion of a
  number to a string (\<^verbatim>\<open>"" + value.num\<close>). For a host object no case of the switch
  matches and the function returns \<^verbatim>\<open>undefined\<close>, which \<^verbatim>\<open>join\<close> renders as the
  empty string.
\<close>

fun serializeValue :: "('n \<Rightarrow> string) \<Rightarrow> 'n val \<Rightarrow> string" where
  "serializeValue showNum (Num num) = showNum num"
| "serializeValue showNum (Native fn) = ''<Native>''"
| "serializeValue showNum (Symbol name) = name"
| "serializeValue showNum (Operator op) = op"
| "serializeValue showNum (Block values) =
     ''{ '' @ join_words (map (serializeValue showNum) values) @ '' }''"
| "serializeValue showNum (Host k) = []"

text \<open>
  A word that the driver hands to the machine as one token and that is neither empty
  nor a brace.
\<close>

definition plainWord :: "string \<Rightarrow> bool" where
  "plainWord w \<longleftrightarrow>
     w \<noteq> [] \<and> w \<noteq> ''{'' \<and> w \<noteq> ''}'' \<and> CHR '' '' \<notin> set w \<and> CHR 0x0A \<notin> set w"

text \<open>
  The values that a block captured from source text can hold, Symbols left out:
  Operators whose name is a word the machine reads as an Operator, Numbers whose
  display the machine reads back as the same Number, and blocks of such values.
\<close>

fun reparsable :: "(string \<Rightarrow> 'n) \<Rightarrow> ('n \<Rightarrow> string) \<Rightarrow> 'n val \<Rightarrow> bool" where
  "reparsable numOf showNum (Num num) \<longleftrightarrow>
     plainWord (showNum num) \<and> parseFloat numOf (showNum num) = Some num"
| "reparsable numOf showNum (Operator op) \<longleftrightarrow>
     plainWord op \<and> floatPrefix op = None \<and> hd op \<noteq> CHR ''/''"
| "reparsable numOf showNum (Symbol name) \<longleftrightarrow> False"
| "reparsable numOf showNum (Block values) \<longleftrightarrow> list_all (reparsable numOf showNum) values"
| "reparsable numOf showNum (Native fn) \<longleftrightarrow> False"
| "reparsable numOf showNum (Host k) \<longleftrightarrow> False"

text \<open>
  The display of a whole number that is not negative, in decimal digits; the concrete
  runs below use it for \<open>showNum\<close>.
\<close>

fun showNat :: "nat \<Rightarrow> string" where
  "showNat n =
     (if n < 10 then [''0123456789'' ! n]
      else showNat (n div 10) @ [''0123456789'' ! (n mod 10)])"

declare showNat.simps [simp del]

definition showDigits :: "rat \<Rightarrow> string" where
  "showDigits x = showNat (nat \<lfloor>x\<rfloor>)"

text \<open>
  The words that the driver cuts the display of a value into, and the state in which an
  open block has taken a value in.
\<close>

fun displayWords :: "('n \<Rightarrow> string) \<Rightarrow> 'n val \<Rightarrow> string list" where
  "displayWords showNum (Block values) =
     ''{'' # (if values = [] then [[]] else concat (map (displayWords showNum) values)) @ [''}'']"
| "displayWords showNum v = [serializeValue showNum v]"

definition capture :: "'n val \<Rightarrow> 'n VmState \<Rightarrow> 'n VmState" where
  "capture v s = s\<lparr>blocks := butlast (blocks s) @ [last (blocks s) @ [v]]\<rparr>"

section \<open>What evaluation leaves alone in the scope chain\<close>

text \<open>
  Every call of the machine, from a state with a scope chain that is not empty, shows
  and returns only states whose chain is grown from, or settled on, the chain it started
  with: scopes are pushed and popped above the starting top scope only, and a binding is
  never taken away or replaced.
\<close>

lemma settles_refl: "vs \<noteq> [] \<Longrightarrow> settles vs vs"
  unfolding settles_def by (rule exI [of _ "last vs"]) simp

lemma settles_nonempty: "settles vs vs' \<Longrightarrow> vs' \<noteq> []"
  by (auto simp: settles_def)

lemma settles_grows: "settles vs vs' \<Longrightarrow> grows vs vs'"
  by (auto simp: settles_def grows_def)

lemma settles_trans:
  assumes "settles a b" "settles b c"
  shows "settles a c"
proof -
  from assms(1) obtain t1 where b: "b = butlast a @ [t1]" and le1: "last a \<subseteq>\<^sub>m t1"
    unfolding settles_def by blast
  from assms(2) obtain t2 where c: "c = butlast b @ [t2]" and le2: "last b \<subseteq>\<^sub>m t2"
    unfolding settles_def by blast
  from b le2 have "t1 \<subseteq>\<^sub>m t2" by simp
  with le1 have "last a \<subseteq>\<^sub>m t2" by (rule map_le_trans)
  moreover from b c have "c = butlast a @ [t2]" by simp
  ultimately show ?thesis unfolding settles_def by blast
qed

lemma settles_grows_trans:
  assumes "settles a b" "grows b c"
  shows "grows a c"
proof -
  from assms(1) obtain t1 where b: "b = butlast a @ [t1]" and le1: "last a \<subseteq>\<^sub>m t1"
    unfolding settles_def by blast
  from assms(2) obtain t2 above where c: "c = butlast b @ t2 # above" and le2: "last b \<subseteq>\<^sub>m t2"
    unfolding grows_def by blast
  from b le2 have "t1 \<subseteq>\<^sub>m t2" by simp
  with le1 have "last a \<subseteq>\<^sub>m t2" by (rule map_le_trans)
  moreover from b c have "c = butlast a @ t2 # above" by simp
  ultimately show ?thesis unfolding grows_def by blast
qed

lemma grows_push:
  assumes "vs \<noteq> []" "grows (vs @ [sc]) vs'"
  shows "grows vs vs'"
proof -
  from assms(2) obtain top above where eq: "vs' = butlast (vs @ [sc]) @ top # above"
    unfolding grows_def by blast
  have "butlast (vs @ [sc]) = butlast vs @ [last vs]"
    using assms(1) by simp
  with eq have "vs' = butlast vs @ last vs # (top # above)"
    by (simp only: append_assoc append_Cons append_Nil)
  moreover have "last vs \<subseteq>\<^sub>m last vs" by (rule map_le_refl)
  ultimately show ?thesis unfolding grows_def by blast
qed

lemma settles_pop: "settles (vs @ [sc]) vs' \<Longrightarrow> butlast vs' = vs"
  by (auto simp: settles_def)

lemma settles_bind:
  "vs \<noteq> [] \<Longrightarrow> last vs key = None \<Longrightarrow> settles vs (butlast vs @ [(last vs)(key \<mapsto> v)])"
  unfolding settles_def by (rule exI [of _ "(last vs)(key \<mapsto> v)"]) (auto simp: map_le_def)

lemma tracks_end [simp]: "tracks s ([], Fail e)" "tracks s ([], Diverge)"
  by (simp_all add: tracks_def)

lemma tracks_return: "vars s \<noteq> [] \<Longrightarrow> tracks s ([], Ok s)"
  by (simp add: tracks_def settles_refl)

lemma evStates_append [simp]: "evStates (evs @ evs') = evStates evs @ evStates evs'"
  by (induction evs rule: evStates.induct) simp_all

lemma tracks_yield:
  assumes "\<And>s'. s' \<in> set (evStates evs) \<Longrightarrow>
             grows (vars s) (vars s') \<and> (blocks s = [] \<longrightarrow> blocks s' = [])"
    and "tracks s r"
  shows "tracks s (yield evs r)"
proof (cases r)
  case (Pair evs' out)
  with assms show ?thesis unfolding tracks_def by auto
qed

lemma tracks_stateEvent:
  "settles (vars s) (vars s') \<Longrightarrow> (blocks s = [] \<Longrightarrow> blocks s' = []) \<Longrightarrow> tracks s (stateEvent s')"
  by (simp add: tracks_def stateEvent_def settles_grows)

lemma tracks_shift:
  assumes "settles (vars s) (vars s1)" "blocks s = [] \<Longrightarrow> blocks s1 = []" "tracks s1 r"
  shows "tracks s r"
  unfolding tracks_def
proof (intro conjI ballI allI impI)
  fix s' assume "s' \<in> set (evStates (fst r))"
  with assms(3) have "grows (vars s1) (vars s')" "blocks s1 = [] \<longrightarrow> blocks s' = []"
    unfolding tracks_def by blast+
  with assms(1,2) show "grows (vars s) (vars s')" "blocks s = [] \<Longrightarrow> blocks s' = []"
    by (blast intro: settles_grows_trans)+
next
  fix s' assume "snd r = Ok s'"
  with assms(3) have "settles (vars s1) (vars s')" "blocks s1 = [] \<longrightarrow> blocks s' = []"
    unfolding tracks_def by blast+
  with assms(1,2) show "settles (vars s) (vars s')" "blocks s = [] \<Longrightarrow> blocks s' = []"
    by (blast intro: settles_trans)+
qed

lemma tracks_andThen:
  assumes "tracks s r"
    and "\<And>s1. settles (vars s) (vars s1) \<Longrightarrow> (blocks s = [] \<Longrightarrow> blocks s1 = []) \<Longrightarrow> tracks s1 (k s1)"
  shows "tracks s (andThen r k)"
proof (cases r)
  case (Pair evs out)
  show ?thesis
  proof (cases out)
    case (Ok s1)
    with Pair assms(1) have st: "settles (vars s) (vars s1)" "blocks s = [] \<Longrightarrow> blocks s1 = []"
      and evs: "\<And>s'. s' \<in> set (evStates evs) \<Longrightarrow>
             grows (vars s) (vars s') \<and> (blocks s = [] \<longrightarrow> blocks s' = [])"
      by (simp_all add: tracks_def)
    from st have "tracks s1 (k s1)" by (rule assms(2))
    with st have "tracks s (k s1)" by (rule tracks_shift)
    with evs have "tracks s (yield evs (k s1))" by (rule tracks_yield)
    then show ?thesis using Pair Ok by simp
  next
    case (Fail e)
    with Pair assms(1) show ?thesis by (simp add: tracks_def)
  next
    case Diverge
    with Pair assms(1) show ?thesis by (simp add: tracks_def)
  qed
qed

lemma tracks_cong: "vars s1 = vars s \<Longrightarrow> blocks s1 = blocks s \<Longrightarrow> tracks s1 r \<Longrightarrow> tracks s r"
  unfolding tracks_def by simp

lemma tracks_popThen:
  assumes "vars s \<noteq> []"
    and "\<And>v s1. vars s1 = vars s \<Longrightarrow> blocks s1 = blocks s \<Longrightarrow> tracks s1 (k v s1)"
  shows "tracks s (popThen s k)"
proof (cases "stack s = []")
  case True
  then show ?thesis by (simp add: popThen_def)
next
  case False
  let ?s1 = "s\<lparr>stack := butlast (stack s)\<rparr>"
  have "tracks ?s1 (k (last (stack s)) ?s1)" by (rule assms(2)) simp_all
  then have "tracks s (k (last (stack s)) ?s1)" by (rule tracks_cong [rotated 2]) simp_all
  moreover have "grows (vars s) (vars ?s1)"
    using assms(1) by (simp add: settles_grows settles_refl)
  ultimately have "tracks s (yield [StackPopEv ?s1 (last (stack s))] (k (last (stack s)) ?s1))"
    by (intro tracks_yield) simp_all
  then show ?thesis using False
    by (simp add: popThen_def Let_def)
qed

lemma tracks_pushThen: "vars s \<noteq> [] \<Longrightarrow> tracks s (pushThen v s)"
  by (simp add: pushThen_def tracks_stateEvent settles_refl)


lemma tracks_binary: "vars s \<noteq> [] \<Longrightarrow> tracks s (binary name f s)"
  unfolding binary_def
  by (rule tracks_popThen, assumption, rule tracks_popThen)
     (auto split: val.splits intro: tracks_pushThen)

lemma tracks_puts: "vars s \<noteq> [] \<Longrightarrow> tracks s (puts s)"
  unfolding puts_def
  by (rule tracks_popThen) (auto simp: tracks_def settles_refl)


lemma andThen_stateEvent [simp]: "andThen (stateEvent s) k = yield [StateEv s] (k s)"
  by (simp add: stateEvent_def)

lemma tracks_invoke:
  assumes ne: "vars s \<noteq> []" and r: "tracks (s\<lparr>vars := vars s @ [sc]\<rparr>) r"
  shows "tracks s (andThen (yield [StateEv (s\<lparr>vars := vars s @ [sc]\<rparr>)] r)
                     (\<lambda>s'. stateEvent (s'\<lparr>vars := butlast (vars s')\<rparr>)))"
proof -
  obtain evs out where req: "r = (evs, out)" by (cases r)
  have up: "grows (vars s) vs'" if "grows (vars s @ [sc]) vs'" for vs'
    using ne that by (rule grows_push)
  have here: "grows (vars s) (vars s @ [sc])"
    by (rule up) (simp add: settles_grows settles_refl)
  have evs: "grows (vars s) (vars s') \<and> (blocks s = [] \<longrightarrow> blocks s' = [])"
    if "s' \<in> set (evStates evs)" for s'
    using r that up unfolding tracks_def req by auto
  show ?thesis
  proof (cases out)
    case (Ok s2)
    with r req have "settles (vars s @ [sc]) (vars s2)" and b: "blocks s = [] \<longrightarrow> blocks s2 = []"
      unfolding tracks_def by auto
    then have "butlast (vars s2) = vars s" by (simp add: settles_pop)
    then show ?thesis
      using Ok req ne here evs b
      by (auto simp: tracks_def stateEvent_def settles_refl settles_grows)
  next
    case (Fail e)
    then show ?thesis using req here evs by (auto simp: tracks_def)
  next
    case Diverge
    then show ?thesis using req here evs by (auto simp: tracks_def)
  qed
qed

lemma tracks_eval:
  fixes s :: "('n::{plus,minus,times,inverse,ord,zero,one}) VmState"
  shows "vars s \<noteq> [] \<Longrightarrow> tracks s (eval n code s)"
    and "vars s \<noteq> [] \<Longrightarrow> tracks s (evalAll n vs s)"
    and "vars s \<noteq> [] \<Longrightarrow> tracks s (opIf n s)"
    and "vars s \<noteq> [] \<Longrightarrow> tracks s (opDef n s)"
    and "vars s \<noteq> [] \<Longrightarrow> tracks s (opExch n s)"
proof (induction n code s and n vs s and n s and n s and n s
       rule: eval_evalAll_opIf_opDef_opExch.induct)
  case (1 code s)
  then show ?case by simp
next
  case (2 n code s)
  note ne = \<open>vars s \<noteq> []\<close>
  show ?case
  proof (cases "blocks s \<noteq> []")
    case True
    then show ?thesis using ne
      by (simp add: Let_def) (intro tracks_stateEvent, simp_all add: settles_refl)
  next
    case False
    note closed = False
    show ?thesis
    proof (cases code)
      case (Operator op)
      show ?thesis
      proof (cases "findVar s op")
        case None
        with closed Operator show ?thesis by simp
      next
        case (Some found)
        show ?thesis
        proof (cases found)
          case (Block vals)
          have "tracks (s\<lparr>vars := vars s @ [Map.empty]\<rparr>)
                  (evalAll n vals (s\<lparr>vars := vars s @ [Map.empty]\<rparr>))"
            by (rule "2.IH"(1) [OF closed Operator Some Block]) simp
          with ne have "tracks s
             (andThen (yield [StateEv (s\<lparr>vars := vars s @ [Map.empty]\<rparr>)]
                        (evalAll n vals (s\<lparr>vars := vars s @ [Map.empty]\<rparr>)))
                (\<lambda>s'. stateEvent (s'\<lparr>vars := butlast (vars s')\<rparr>)))"
            by (rule tracks_invoke)
          with closed Operator Some Block show ?thesis by simp
        next
          case (Native fn)
          show ?thesis
          proof (cases fn)
            case NIf
            from "2.IH"(2) [OF closed Operator Some Native NIf ne]
            show ?thesis using closed Operator Some Native NIf by simp
          next
            case NDef
            from "2.IH"(3) [OF closed Operator Some Native NDef ne]
            show ?thesis using closed Operator Some Native NDef by simp
          next
            case NExch
            from "2.IH"(4) [OF closed Operator Some Native NExch ne]
            show ?thesis using closed Operator Some Native NExch by simp
          qed (use closed Operator Some Native ne in
                \<open>simp_all add: add_def sub_def mul_def div_native_def lt_def
                   tracks_binary tracks_puts\<close>)
        qed (use closed Operator Some ne in \<open>simp_all add: tracks_pushThen\<close>)
      qed
    qed (use closed ne in \<open>simp_all add: tracks_pushThen\<close>)
  qed
next
  case (3 n s)
  then show ?case by (simp add: tracks_return)
next
  case (4 n v vs s)
  have "tracks s (andThen (eval n v s) (evalAll n vs))"
  proof (rule tracks_andThen)
    show "tracks s (eval n v s)" using 4 by simp
  next
    fix s1 :: "'n VmState" assume "settles (vars s) (vars s1)"
    then have "vars s1 \<noteq> []" by (rule settles_nonempty)
    then show "tracks s1 (evalAll n vs s1)" by (rule "4.IH"(2))
  qed
  then show ?case by simp
next
  case (5 n s)
  note ne = \<open>vars s \<noteq> []\<close>
  have all: "tracks x (evalAll n vals x)" if "vars x \<noteq> []" for x :: "'n VmState" and vals
    using "5.IH"(1) [OF refl refl refl] that by blast
  have branch: "tracks x (case c of Num k \<Rightarrow> if k \<noteq> 0 then evalAll n tv x else evalAll n fv x
                                  | _ \<Rightarrow> ([], Fail ExpectNum))"
    if "vars x \<noteq> []" for x :: "'n VmState" and c tv fv
    using that by (cases c) (simp_all add: all)
  have test: "tracks x (andThen (evalAll n cv x) (\<lambda>s4. popThen s4 (\<lambda>c s5.
                 case c of Num k \<Rightarrow> if k \<noteq> 0 then evalAll n tv s5 else evalAll n fv s5
                         | _ \<Rightarrow> ([], Fail ExpectNum))))"
    if "vars x \<noteq> []" for x :: "'n VmState" and cv tv fv
  proof (rule tracks_andThen)
    show "tracks x (evalAll n cv x)" using that by (rule all)
  next
    fix s4 :: "'n VmState" assume "settles (vars x) (vars s4)"
    then have ne4: "vars s4 \<noteq> []" by (rule settles_nonempty)
    show "tracks s4 (popThen s4 (\<lambda>c s5.
                 case c of Num k \<Rightarrow> if k \<noteq> 0 then evalAll n tv s5 else evalAll n fv s5
                         | _ \<Rightarrow> ([], Fail ExpectNum)))"
      using ne4 by (rule tracks_popThen) (rule branch, simp add: ne4)
  qed
  show ?case
    unfolding opIf.simps
  proof (rule tracks_popThen [OF ne])
    fix fb and s1 :: "'n VmState" assume v1: "vars s1 = vars s"
    show "tracks s1 (case fb of
            Block falseValues \<Rightarrow>
              popThen s1 (\<lambda>trueBranch s2.
                case trueBranch of
                  Block trueValues \<Rightarrow>
                    popThen s2 (\<lambda>cond s3.
                      case cond of
                        Block condValues \<Rightarrow>
                          andThen (evalAll n condValues s3) (\<lambda>s4.
                            popThen s4 (\<lambda>condResult s5.
                              case condResult of
                                Num c \<Rightarrow>
                                  if c \<noteq> 0 then evalAll n trueValues s5
                                  else evalAll n falseValues s5
                              | _ \<Rightarrow> ([], Fail ExpectNum)))
                      | _ \<Rightarrow> ([], Fail ExpectBlock))
                | _ \<Rightarrow> ([], Fail ExpectBlock))
          | _ \<Rightarrow> ([], Fail ExpectBlock))"
    proof (cases fb)
      case (Block fv)
      have "tracks s1 (popThen s1 (\<lambda>trueBranch s2.
                case trueBranch of
                  Block trueValues \<Rightarrow>
                    popThen s2 (\<lambda>cond s3.
                      case cond of
                        Block condValues \<Rightarrow>
                          andThen (evalAll n condValues s3) (\<lambda>s4.
                            popThen s4 (\<lambda>condResult s5.
                              case condResult of
                                Num c \<Rightarrow>
                                  if c \<noteq> 0 then evalAll n trueValues s5
                                  else evalAll n fv s5
                              | _ \<Rightarrow> ([], Fail ExpectNum)))
                      | _ \<Rightarrow> ([], Fail ExpectBlock))
                | _ \<Rightarrow> ([], Fail ExpectBlock)))"
      proof (rule tracks_popThen)
        show "vars s1 \<noteq> []" using v1 ne by simp
      next
        fix tb and s2 :: "'n VmState" assume v2: "vars s2 = vars s1"
        show "tracks s2 (case tb of
                  Block trueValues \<Rightarrow>
                    popThen s2 (\<lambda>cond s3.
                      case cond of
                        Block condValues \<Rightarrow>
                          andThen (evalAll n condValues s3) (\<lambda>s4.
                            popThen s4 (\<lambda>condResult s5.
                              case condResult of
                                Num c \<Rightarrow>
                                  if c \<noteq> 0 then evalAll n trueValues s5
                                  else evalAll n fv s5
                              | _ \<Rightarrow> ([], Fail ExpectNum)))
                      | _ \<Rightarrow> ([], Fail ExpectBlock))
                | _ \<Rightarrow> ([], Fail ExpectBlock))"
        proof (cases tb)
          case (Block tv)
          have "tracks s2 (popThen s2 (\<lambda>cond s3.
                      case cond of
                        Block condValues \<Rightarrow>
                          andThen (evalAll n condValues s3) (\<lambda>s4.
                            popThen s4 (\<lambda>condResult s5.
                              case condResult of
                                Num c \<Rightarrow>
                                  if c \<noteq> 0 then evalAll n tv s5
                                  else evalAll n fv s5
                              | _ \<Rightarrow> ([], Fail ExpectNum)))
                      | _ \<Rightarrow> ([], Fail ExpectBlock)))"
          proof (rule tracks_popThen)
            show "vars s2 \<noteq> []" using v1 v2 ne by simp
          next
            fix cond and s3 :: "'n VmState" assume v3: "vars s3 = vars s2"
            then have ne3: "vars s3 \<noteq> []" using v1 v2 ne by simp
            show "tracks s3 (case cond of
                        Block condValues \<Rightarrow>
                          andThen (evalAll n condValues s3) (\<lambda>s4.
                            popThen s4 (\<lambda>condResult s5.
                              case condResult of
                                Num c \<Rightarrow>
                                  if c \<noteq> 0 then evalAll n tv s5
                                  else evalAll n fv s5
                              | _ \<Rightarrow> ([], Fail ExpectNum)))
                      | _ \<Rightarrow> ([], Fail ExpectBlock))"
              using test [OF ne3] by (cases cond) simp_all
          qed
          with Block show ?thesis by simp
        qed simp_all
      qed
      with Block show ?thesis by simp
    qed simp_all
  qed
next
  case (6 n s)
  note ne = \<open>vars s \<noteq> []\<close>
  have ev: "tracks x (eval n c x)" if "vars x \<noteq> []" for x :: "'n VmState" and c
    using "6.IH" that by blast
  have store: "tracks x (case symbol of
               Symbol key \<Rightarrow>
                 if vars x = [] then ([], Fail HostTypeError)
                 else if getProp (last (vars x)) key = None then
                   stateEvent
                     (x\<lparr>vars := butlast (vars x) @ [(last (vars x))(key \<mapsto> res)]\<rparr>)
                 else stateEvent x
             | _ \<Rightarrow> ([], Fail ExpectSymbol))"
    if nx: "vars x \<noteq> []" for x :: "'n VmState" and symbol res
  proof (cases symbol)
    case (Symbol key)
    show ?thesis
    proof (cases "getProp (last (vars x)) key = None")
      case True
      then have "last (vars x) key = None"
        by (simp add: getProp_def split: option.splits)
      with nx have "settles (vars x) (butlast (vars x) @ [(last (vars x))(key \<mapsto> res)])"
        by (rule settles_bind)
      then have "tracks x (stateEvent
                     (x\<lparr>vars := butlast (vars x) @ [(last (vars x))(key \<mapsto> res)]\<rparr>))"
        by (intro tracks_stateEvent) simp_all
      with Symbol True nx show ?thesis by simp
    next
      case False
      have "tracks x (stateEvent x)"
        using nx by (intro tracks_stateEvent) (simp_all add: settles_refl)
      with Symbol False nx show ?thesis by auto
    qed
  qed simp_all
  show ?case
    unfolding opDef.simps
  proof (rule tracks_popThen [OF ne])
    fix v and s1 :: "'n VmState" assume v1: "vars s1 = vars s"
    then have ne1: "vars s1 \<noteq> []" using ne by simp
    show "tracks s1 (andThen (eval n v s1) (\<lambda>s2.
         popThen s2 (\<lambda>evalResult s3.
           popThen s3 (\<lambda>symbol s4.
             case symbol of
               Symbol key \<Rightarrow>
                 if vars s4 = [] then ([], Fail HostTypeError)
                 else if getProp (last (vars s4)) key = None then
                   stateEvent
                     (s4\<lparr>vars := butlast (vars s4) @ [(last (vars s4))(key \<mapsto> evalResult)]\<rparr>)
                 else stateEvent s4
             | _ \<Rightarrow> ([], Fail ExpectSymbol)))))"
    proof (rule tracks_andThen)
      show "tracks s1 (eval n v s1)" using ne1 by (rule ev)
    next
      fix s2 :: "'n VmState" assume "settles (vars s1) (vars s2)"
      then have ne2: "vars s2 \<noteq> []" by (rule settles_nonempty)
      show "tracks s2 (popThen s2 (\<lambda>evalResult s3.
           popThen s3 (\<lambda>symbol s4.
             case symbol of
               Symbol key \<Rightarrow>
                 if vars s4 = [] then ([], Fail HostTypeError)
                 else if getProp (last (vars s4)) key = None then
                   stateEvent
                     (s4\<lparr>vars := butlast (vars s4) @ [(last (vars s4))(key \<mapsto> evalResult)]\<rparr>)
                 else stateEvent s4
             | _ \<Rightarrow> ([], Fail ExpectSymbol))))"
      proof (rule tracks_popThen [OF ne2])
        fix res and s3 :: "'n VmState" assume v3: "vars s3 = vars s2"
        then have ne3: "vars s3 \<noteq> []" using ne2 by simp
        show "tracks s3 (popThen s3 (\<lambda>symbol s4.
             case symbol of
               Symbol key \<Rightarrow>
                 if vars s4 = [] then ([], Fail HostTypeError)
                 else if getProp (last (vars s4)) key = None then
                   stateEvent
                     (s4\<lparr>vars := butlast (vars s4) @ [(last (vars s4))(key \<mapsto> res)]\<rparr>)
                 else stateEvent s4
             | _ \<Rightarrow> ([], Fail ExpectSymbol)))"
          using ne3 by (rule tracks_popThen) (rule store, simp add: ne3)
      qed
    qed
  qed
next
  case (7 n s)
  note ne = \<open>vars s \<noteq> []\<close>
  have ev: "tracks x (eval n c x)" if "vars x \<noteq> []" for x :: "'n VmState" and c
    using "7.IH" that by blast
  have tail: "tracks x (andThen (andThen (eval n c x) (pushThen a)) (pushThen b))"
    if nx: "vars x \<noteq> []" for x :: "'n VmState" and a b c
  proof (rule tracks_andThen)
    show "tracks x (andThen (eval n c x) (pushThen a))"
    proof (rule tracks_andThen)
      show "tracks x (eval n c x)" using nx by (rule ev)
    next
      fix s1 :: "'n VmState" assume "settles (vars x) (vars s1)"
      then have "vars s1 \<noteq> []" by (rule settles_nonempty)
      then show "tracks s1 (pushThen a s1)" by (rule tracks_pushThen)
    qed
  next
    fix s1 :: "'n VmState" assume "settles (vars x) (vars s1)"
    then have "vars s1 \<noteq> []" by (rule settles_nonempty)
    then show "tracks s1 (pushThen b s1)" by (rule tracks_pushThen)
  qed
  show ?case
    unfolding opExch.simps
  proof (rule tracks_popThen [OF ne])
    fix a and s1 :: "'n VmState" assume v1: "vars s1 = vars s"
    then have ne1: "vars s1 \<noteq> []" using ne by simp
    show "tracks s1 (popThen s1 (\<lambda>second s2.
         andThen (andThen (eval n second s2) (pushThen a)) (pushThen second)))"
      using ne1 by (rule tracks_popThen) (rule tail, simp add: ne1)
  qed
qed

section \<open>Sequencing and concrete runs\<close>

lemmas token_defs = wordsOf_def parseFloat_def floatPrefix_def unsignedPrefix_def
  exponentPart_def isDigit_def isWhiteSpace_def digitsValue_def

lemmas machine_defs = run_def parse_def initialState_def baseScope_def findVar_def getProp_def
  objectPrototypeKeys_def popThen_def pushThen_def stateEvent_def binary_def add_def sub_def
  mul_def div_native_def lt_def puts_def Let_def finalStack_def failure_def
  opIf.simps opDef.simps opExch.simps

lemma yield_Nil [simp]: "yield [] r = r"
  by (cases r) simp

lemma yield_yield [simp]: "yield evs (yield evs' r) = yield (evs @ evs') r"
  by (cases r) simp

lemma andThen_return [simp]: "andThen ([], Ok s) k = k s"
  by simp

lemma andThen_yield [simp]: "andThen (yield evs r) k = yield evs (andThen r k)"
proof (cases r)
  case (Pair evs' out)
  then show ?thesis by (cases out) simp_all
qed


lemma andThen_Fail: "r = (evs, Fail e) \<Longrightarrow> andThen r k = (evs, Fail e)"
  by simp





lemma snd_andThen:
  "snd (andThen r k) = (case snd r of Ok s \<Rightarrow> snd (k s) | Fail e \<Rightarrow> Fail e | Diverge \<Rightarrow> Diverge)"
proof (cases r)
  case (Pair evs out)
  then show ?thesis by (cases out; cases "k (case out of Ok s \<Rightarrow> s)") auto
qed

lemma snd_yield [simp]: "snd (yield evs r) = snd r"
  by (cases r) simp

section \<open>The depth bound\<close>

text \<open>
  The bound on the depth of calls only decides whether a result is reached: a call that
  returns or throws under some bound yields the same events and ends the same way under
  every larger bound.
\<close>

lemma settled_simps [simp]:
  "settled (evs, Ok s)" "settled (evs, Fail e)" "\<not> settled (evs, Diverge)"
  "settled (stateEvent s)" "settled (pushThen v s)"
  by (simp_all add: settled_def stateEvent_def pushThen_def)

lemma settled_yield [simp]: "settled (yield evs r) = settled r"
  by (cases r) (simp add: settled_def)

lemma andThen_deeper:
  assumes "settled (andThen r k)"
    and "settled r \<Longrightarrow> r' = r"
    and "\<And>s1. snd r = Ok s1 \<Longrightarrow> settled (k s1) \<Longrightarrow> k' s1 = k s1"
  shows "andThen r' k' = andThen r k"
proof (cases r)
  case (Pair evs out)
  show ?thesis
  proof (cases out)
    case (Ok s1)
    with Pair assms(1) have "settled (k s1)" by simp
    with Pair Ok assms(3) [of s1] have "k' s1 = k s1" by simp
    moreover from Pair Ok assms(2) have "r' = r" by simp
    ultimately show ?thesis using Pair Ok by simp
  next
    case (Fail e)
    with Pair assms(2) have "r' = r" by simp
    with Pair Fail show ?thesis by simp
  next
    case Diverge
    with Pair assms(1) show ?thesis by simp
  qed
qed

lemma popThen_deeper:
  assumes "settled (popThen s k)"
    and "\<And>v s1. settled (k v s1) \<Longrightarrow> k' v s1 = k v s1"
  shows "popThen s k' = popThen s k"
  using assms by (auto simp: popThen_def Let_def)

lemma depth_mono:
  fixes s :: "('n::{plus,minus,times,inverse,ord,zero,one}) VmState"
  shows "settled (eval n code s) \<Longrightarrow> eval (Suc n) code s = eval n code s"
    and "settled (evalAll n vs s) \<Longrightarrow> evalAll (Suc n) vs s = evalAll n vs s"
    and "settled (opIf n s) \<Longrightarrow> opIf (Suc n) s = opIf n s"
    and "settled (opDef n s) \<Longrightarrow> opDef (Suc n) s = opDef n s"
    and "settled (opExch n s) \<Longrightarrow> opExch (Suc n) s = opExch n s"
proof (induction n code s and n vs s and n s and n s and n s
       rule: eval_evalAll_opIf_opDef_opExch.induct)
  case (1 code s)
  then show ?case by simp
next
  case (2 n code s)
  show ?case
  proof (cases "blocks s \<noteq> []")
    case True
    then show ?thesis by simp
  next
    case False
    note closed = False
    show ?thesis
    proof (cases code)
      case (Operator op)
      show ?thesis
      proof (cases "findVar s op")
        case None
        with closed Operator show ?thesis by simp
      next
        case (Some found)
        show ?thesis
        proof (cases found)
          case (Block vals)
          let ?s1 = "s\<lparr>vars := vars s @ [Map.empty]\<rparr>"
          from "2.prems" closed Operator Some Block
          have "settled (andThen (evalAll n vals ?s1)
                           (\<lambda>s'. stateEvent (s'\<lparr>vars := butlast (vars s')\<rparr>)))"
            by simp
          then have "andThen (evalAll (Suc n) vals ?s1)
                           (\<lambda>s'. stateEvent (s'\<lparr>vars := butlast (vars s')\<rparr>))
                   = andThen (evalAll n vals ?s1)
                           (\<lambda>s'. stateEvent (s'\<lparr>vars := butlast (vars s')\<rparr>))"
            by (rule andThen_deeper) (simp_all add: "2.IH"(1) [OF closed Operator Some Block])
          with closed Operator Some Block show ?thesis by simp
        next
          case (Native fn)
          show ?thesis
          proof (cases fn)
            case NIf
            with "2.prems" closed Operator Some Native
            have "settled (opIf n s)" by simp
            from "2.IH"(2) [OF closed Operator Some Native NIf this]
            show ?thesis using closed Operator Some Native NIf by simp
          next
            case NDef
            with "2.prems" closed Operator Some Native
            have "settled (opDef n s)" by simp
            from "2.IH"(3) [OF closed Operator Some Native NDef this]
            show ?thesis using closed Operator Some Native NDef by simp
          next
            case NExch
            with "2.prems" closed Operator Some Native
            have "settled (opExch n s)" by simp
            from "2.IH"(4) [OF closed Operator Some Native NExch this]
            show ?thesis using closed Operator Some Native NExch by simp
          qed (use closed Operator Some Native in simp_all)
        qed (use closed Operator Some in simp_all)
      qed
    qed (use closed in simp_all)
  qed
next
  case (3 n s)
  show ?case by simp
next
  case (4 n v vs s)
  from "4.prems" have "settled (andThen (eval n v s) (evalAll n vs))" by simp
  then have "andThen (eval (Suc n) v s) (evalAll (Suc n) vs)
           = andThen (eval n v s) (evalAll n vs)"
    by (rule andThen_deeper) (blast intro: "4.IH")+
  then show ?case by simp
next
  case (5 n s)
  have all: "evalAll (Suc n) vals x = evalAll n vals x"
    if "settled (evalAll n vals x)" for x :: "'n VmState" and vals
    using "5.IH"(1) [OF refl refl refl] that by blast
  from "5.prems" show ?case
    unfolding opIf.simps [of "Suc n"] opIf.simps [of n]
    by (auto intro!: popThen_deeper andThen_deeper all split: val.splits)
next
  case (6 n s)
  have ev: "eval (Suc n) c x = eval n c x"
    if "settled (eval n c x)" for x :: "'n VmState" and c
    using "6.IH" that by blast
  from "6.prems" show ?case
    unfolding opDef.simps [of "Suc n"] opDef.simps [of n]
    by (auto simp del: eval.simps intro!: popThen_deeper andThen_deeper ev)
next
  case (7 n s)
  have ev: "eval (Suc n) c x = eval n c x"
    if "settled (eval n c x)" for x :: "'n VmState" and c
    using "7.IH" that by blast
  from "7.prems" show ?case
    unfolding opExch.simps [of "Suc n"] opExch.simps [of n]
    by (auto simp del: eval.simps intro!: popThen_deeper andThen_deeper ev)
qed


lemma parse_deeper:
  fixes s :: "('n::{plus,minus,times,inverse,ord,zero,one}) VmState"
  assumes "settled (parse n numOf w s)"
  shows "parse (Suc n) numOf w s = parse n numOf w s"
proof -
  have ev: "eval (Suc n) c x = eval n c x"
    if "settled (eval n c x)" for x :: "'n VmState" and c
    using that by (rule depth_mono(1))
  from assms show ?thesis
    unfolding parse_def
    by (auto simp del: eval.simps simp: ev split: option.splits if_splits)
qed

lemma parseAll_deeper:
  fixes s :: "('n::{plus,minus,times,inverse,ord,zero,one}) VmState"
  shows "settled (parseAll n numOf ws s) \<Longrightarrow> parseAll (Suc n) numOf ws s = parseAll n numOf ws s"
proof (induction ws arbitrary: s)
  case Nil
  show ?case by simp
next
  case (Cons w ws)
  from Cons.prems have "settled (andThen (parse n numOf w s) (parseAll n numOf ws))" by simp
  then have "andThen (parse (Suc n) numOf w s) (parseAll (Suc n) numOf ws)
           = andThen (parse n numOf w s) (parseAll n numOf ws)"
    by (rule andThen_deeper) (blast intro: parse_deeper Cons.IH)+
  then show ?case by simp
qed

lemma run_deeper:
  "settled (run n numOf program) \<Longrightarrow> run (n + k) numOf program = run n numOf program"
proof (induction k)
  case 0
  show ?case by simp
next
  case (Suc k)
  then have eq: "run (n + k) numOf program = run n numOf program" by simp
  with Suc.prems have "settled (run (n + k) numOf program)" by simp
  then have "settled (parseAll (n + k) numOf (wordsOf program) initialState)"
    by (simp add: run_def)
  then have "parseAll (Suc (n + k)) numOf (wordsOf program) initialState
           = parseAll (n + k) numOf (wordsOf program) initialState"
    by (rule parseAll_deeper)
  then have "run (Suc (n + k)) numOf program = run (n + k) numOf program"
    by (simp add: run_def)
  with eq show ?case by simp
qed

section \<open>Errors\<close>



section \<open>Block literals\<close>

text \<open>
  Claim C3. While a block is open, \<^verbatim>\<open>eval\<close> appends whatever value it is given to the
  body on top of the block-construction stack, shows that state and returns; it neither
  runs the value nor touches the operand stack or the scopes. So the program
  \<^verbatim>\<open>{ 1 2 + }\<close> adds nothing: it ends with the one captured Block on the operand
  stack, and every state it shows has the empty stack or that one Block on it, never the
  Number 3.
\<close>

theorem open_block_captures:
  "(blocks s \<noteq> [] \<longrightarrow>
      eval (Suc n) v s =
        ([StateEv (s\<lparr>blocks := butlast (blocks s) @ [last (blocks s) @ [v]]\<rparr>)],
         Ok (s\<lparr>blocks := butlast (blocks s) @ [last (blocks s) @ [v]]\<rparr>))) \<and>
   finalStack (run (Suc n) numOf ''{ 1 2 + }'')
     = Some [Block [Num (numOf ''1''), Num (numOf ''2''), Operator ''+'']] \<and>
   list_all (\<lambda>s'. stack s' = [] \<or>
                   stack s' = [Block [Num (numOf ''1''), Num (numOf ''2''), Operator ''+'']])
     (evStates (fst (run (Suc n) numOf ''{ 1 2 + }''))) \<and>
   list_all (\<lambda>s'. Num 3 \<notin> set (stack s'))
     (evStates (fst (run (Suc n) digitsValue ''{ 1 2 + }'')))"
proof (intro conjI impI)
  assume "blocks s \<noteq> []"
  then show "eval (Suc n) v s =
        ([StateEv (s\<lparr>blocks := butlast (blocks s) @ [last (blocks s) @ [v]]\<rparr>)],
         Ok (s\<lparr>blocks := butlast (blocks s) @ [last (blocks s) @ [v]]\<rparr>))"
    by (simp add: stateEvent_def)
next
  show "finalStack (run (Suc n) numOf ''{ 1 2 + }'')
     = Some [Block [Num (numOf ''1''), Num (numOf ''2''), Operator ''+'']]"
    by (simp add: token_defs machine_defs)
next
  show "list_all (\<lambda>s'. stack s' = [] \<or>
                   stack s' = [Block [Num (numOf ''1''), Num (numOf ''2''), Operator ''+'']])
     (evStates (fst (run (Suc n) numOf ''{ 1 2 + }'')))"
    by (simp add: token_defs machine_defs)
next
  show "list_all (\<lambda>s'. Num 3 \<notin> set (stack s'))
     (evStates (fst (run (Suc n) digitsValue ''{ 1 2 + }'')))"
    by (simp add: token_defs machine_defs)
qed

theorem open_block_captures_witness:
  "blocks (initialState\<lparr>blocks := [[Num 1]]\<rparr> :: rat VmState) \<noteq> [] \<and>
   eval (Suc 0) (Operator ''+'') (initialState\<lparr>blocks := [[Num 1]]\<rparr> :: rat VmState) =
     ([StateEv (initialState\<lparr>blocks := [[Num 1, Operator ''+'']]\<rparr>)],
      Ok (initialState\<lparr>blocks := [[Num 1, Operator ''+'']]\<rparr>))"
  using open_block_captures
    [of "initialState\<lparr>blocks := [[Num 1]]\<rparr> :: rat VmState" 0 "Operator ''+''", THEN conjunct1]
  by (simp add: initialState_def)

section \<open>The conditional\<close>

text \<open>
  Claim C4, as the specification words it, fails: in \<^verbatim>\<open>1 { 2 } { 3 } if\<close> the value
  that \<^verbatim>\<open>if\<close> pops third is the Number 1, and \<^verbatim>\<open>if\<close> throws \<^verbatim>\<open>Expect block\<close>
  because the condition must be a Block.
\<close>

theorem if_needs_condition_block_counterexample:
  "finalStack (run (Suc (Suc (Suc 0))) digitsValue ''1 { 2 } { 3 } if'') = None \<and>
   failure (run (Suc (Suc (Suc 0))) digitsValue ''1 { 2 } { 3 } if'') = Some ExpectBlock"
  by (simp add: token_defs machine_defs)

text \<open>
  Claim C4, amended. With the condition given as a Block, \<^verbatim>\<open>{ 1 } { 2 } { 3 } if\<close> ends
  with the Number 2 on the stack and \<^verbatim>\<open>{ 0 } { 2 } { 3 } if\<close> ends with the Number 3;
  with a Number as condition, \<^verbatim>\<open>1 { 2 } { 3 } if\<close> and \<^verbatim>\<open>0 { 2 } { 3 } if\<close> throw
  \<^verbatim>\<open>Expect block\<close>.
\<close>

theorem if_with_condition_block:
  "finalStack (run (Suc (Suc n)) digitsValue ''{ 1 } { 2 } { 3 } if'') = Some [Num 2] \<and>
   finalStack (run (Suc (Suc n)) digitsValue ''{ 0 } { 2 } { 3 } if'') = Some [Num 3] \<and>
   failure (run (Suc (Suc n)) digitsValue ''1 { 2 } { 3 } if'') = Some ExpectBlock \<and>
   failure (run (Suc (Suc n)) digitsValue ''0 { 2 } { 3 } if'') = Some ExpectBlock"
  by (simp add: token_defs machine_defs)

theorem if_with_condition_block_witness:
  "finalStack (run (Suc (Suc 0)) digitsValue ''{ 1 } { 2 } { 3 } if'') = Some [Num 2] \<and>
   finalStack (run (Suc (Suc 0)) digitsValue ''{ 0 } { 2 } { 3 } if'') = Some [Num 3]"
  using if_with_condition_block [of 0] by simp

section \<open>Arithmetic\<close>

text \<open>
  On programs made of number literals and the words \<^verbatim>\<open>+ - *\<close> the machine does
  what reverse Polish evaluation does: where that evaluation ends with a stack, the run
  returns with the same numbers on the operand stack, bottom first.
\<close>

lemma literal_word:
  assumes "floatPrefix w = Some w"
  shows "w \<noteq> []" "w \<noteq> ''{''" "w \<noteq> ''}''" "w \<noteq> ''+''" "w \<noteq> ''-''" "w \<noteq> ''*''" "w \<noteq> ''/''"
  using assms by (auto simp: token_defs)

lemma parse_literal:
  fixes s :: "('n::{plus,minus,times,inverse,ord,zero,one}) VmState"
  assumes "floatPrefix w = Some w" "blocks s = []"
  shows "parse (Suc n) numOf w s = pushThen (Num (numOf w)) s"
  using assms literal_word [OF assms(1)] by (simp add: parse_def parseFloat_def)

lemma parse_arith:
  fixes l r :: "'n::{plus,minus,times,inverse,ord,zero,one}"
  shows "snd (parse (Suc n) numOf ''+'' (initialState\<lparr>stack := xs @ [Num l, Num r]\<rparr>))
           = Ok (initialState\<lparr>stack := xs @ [Num (l + r)]\<rparr>)"
    and "snd (parse (Suc n) numOf ''-'' (initialState\<lparr>stack := xs @ [Num l, Num r]\<rparr>))
           = Ok (initialState\<lparr>stack := xs @ [Num (l - r)]\<rparr>)"
    and "snd (parse (Suc n) numOf ''*'' (initialState\<lparr>stack := xs @ [Num l, Num r]\<rparr>))
           = Ok (initialState\<lparr>stack := xs @ [Num (l * r)]\<rparr>)"
  by (simp_all add: token_defs machine_defs butlast_append)

lemma rpn_refinement_without_division:
  fixes numOf :: "string \<Rightarrow> 'n::{plus,minus,times,inverse,ord,zero,one}"
  assumes "list_all (\<lambda>w. w = ''+'' \<or> w = ''-'' \<or> w = ''*'' \<or> floatPrefix w = Some w) ws"
    and "rpn_spec numOf ws st = Some st'"
  shows "snd (parseAll (Suc n) numOf ws (initialState\<lparr>stack := map Num (rev st)\<rparr>))
           = Ok (initialState\<lparr>stack := map Num (rev st')\<rparr>)"
  using assms
proof (induction ws arbitrary: st)
  case Nil
  then show ?case by simp
next
  case (Cons w ws)
  let ?s = "initialState\<lparr>stack := map Num (rev st)\<rparr> :: 'n VmState"
  from Cons.prems(1) have rest: "list_all (\<lambda>w. w = ''+'' \<or> w = ''-'' \<or> w = ''*'' \<or> floatPrefix w = Some w) ws"
    and kind: "w = ''+'' \<or> w = ''-'' \<or> w = ''*'' \<or> floatPrefix w = Some w"
    by simp_all
  have step: "snd (parseAll (Suc n) numOf (w # ws) ?s) = Ok (initialState\<lparr>stack := map Num (rev st')\<rparr>)"
    if one: "snd (parse (Suc n) numOf w ?s) = Ok (initialState\<lparr>stack := map Num (rev st1)\<rparr>)"
      and next_: "rpn_spec numOf ws st1 = Some st'" for st1
  proof -
    have "snd (parseAll (Suc n) numOf ws (initialState\<lparr>stack := map Num (rev st1)\<rparr>))
            = Ok (initialState\<lparr>stack := map Num (rev st')\<rparr>)"
      using rest next_ by (rule Cons.IH)
    with one show ?thesis by (simp add: snd_andThen)
  qed
  have operator: ?case
    if w: "w = ''+'' \<and> f = (\<lambda>l r. l + r) \<or> w = ''-'' \<and> f = (\<lambda>l r. l - r) \<or>
           w = ''*'' \<and> f = (\<lambda>l r. l * r)" for f :: "'n \<Rightarrow> 'n \<Rightarrow> 'n"
  proof (cases st)
    case Nil
    with w Cons.prems(2) show ?thesis by auto
  next
    case (Cons r st2)
    note st_r = Cons
    show ?thesis
    proof (cases st2)
      case Nil
      with w st_r Cons.prems(2) show ?thesis by auto
    next
      case (Cons l st3)
      with st_r have st: "st = r # l # st3" by simp
      with w Cons.prems(2) have nx: "rpn_spec numOf ws (f l r # st3) = Some st'" by auto
      have "snd (parse (Suc n) numOf w (initialState\<lparr>stack := map Num (rev st3) @ [Num l, Num r]\<rparr>))
              = Ok (initialState\<lparr>stack := map Num (rev st3) @ [Num (f l r)]\<rparr>)"
        using w parse_arith [of n numOf "map Num (rev st3)" l r] by auto
      then have "snd (parse (Suc n) numOf w ?s)
              = Ok (initialState\<lparr>stack := map Num (rev (f l r # st3))\<rparr>)"
        using st by simp
      then show ?thesis using nx by (rule step)
    qed
  qed
  from kind show ?case
  proof (elim disjE)
    assume "w = ''+''" then show ?thesis by (intro operator [of "\<lambda>l r. l + r"]) simp
  next
    assume "w = ''-''" then show ?thesis by (intro operator [of "\<lambda>l r. l - r"]) simp
  next
    assume "w = ''*''" then show ?thesis by (intro operator [of "\<lambda>l r. l * r"]) simp
  next
    assume lit: "floatPrefix w = Some w"
    have "snd (parse (Suc n) numOf w ?s) = Ok (initialState\<lparr>stack := map Num (rev (numOf w # st))\<rparr>)"
      using parse_literal [OF lit, of ?s n numOf]
      by (simp add: initialState_def pushThen_def stateEvent_def)
    moreover have "rpn_spec numOf ws (numOf w # st) = Some st'"
      using Cons.prems(2) literal_word [OF lit] by simp
    ultimately show ?thesis by (rule step)
  qed
qed

lemma rpn_run_without_division:
  fixes numOf :: "string \<Rightarrow> 'n::{plus,minus,times,inverse,ord,zero,one}"
  assumes "list_all (\<lambda>w. w = ''+'' \<or> w = ''-'' \<or> w = ''*'' \<or> floatPrefix w = Some w)
             (wordsOf program)"
    and "rpn_spec numOf (wordsOf program) [] = Some (x # st)"
  shows "\<exists>lower. finalStack (run (Suc n) numOf program) = Some (lower @ [Num x])"
proof -
  have "snd (parseAll (Suc n) numOf (wordsOf program) (initialState\<lparr>stack := map Num (rev [])\<rparr>))
           = Ok (initialState\<lparr>stack := map Num (rev (x # st))\<rparr>)"
    using assms by (rule rpn_refinement_without_division)
  then have "finalStack (run (Suc n) numOf program) = Some (map Num (rev st) @ [Num x])"
    by (simp add: run_def finalStack_def initialState_def)
  then show ?thesis by blast
qed

text \<open>
  Claim C1 at the word \<^verbatim>\<open>/\<close>. The machine reads every word that starts with a
  slash as a Symbol, the lone slash included, so the word \<^verbatim>\<open>/\<close> pushes the Symbol
  with the empty name and the native bound to \<^verbatim>\<open>/\<close> is never called: \<^verbatim>\<open>10 2 /\<close>
  ends with the two Numbers and that Symbol on the stack, where reverse Polish
  evaluation gives 5. The other operators work: \<^verbatim>\<open>3 4 +\<close> ends with 7 and
  \<^verbatim>\<open>10 2 -\<close> with 8.
\<close>

theorem division_word_is_a_symbol:
  "parse m numOf ''/'' s = eval m (Symbol '''') s \<and>
   finalStack (run (Suc n) digitsValue ''10 2 /'') = Some [Num 10, Num 2, Symbol ''''] \<and>
   rpn_spec digitsValue (wordsOf ''10 2 /'') [] = Some [5] \<and>
   finalStack (run (Suc n) digitsValue ''3 4 +'') = Some [Num 7] \<and>
   finalStack (run (Suc n) digitsValue ''10 2 -'') = Some [Num 8]"
  by (simp add: token_defs machine_defs)

section \<open>Number words\<close>

lemma takeWhile_digits:
  assumes "list_all isDigit ds" "t = [] \<or> \<not> isDigit (hd t)"
  shows "takeWhile isDigit (ds @ t) = ds" "dropWhile isDigit (ds @ t) = t"
proof -
  have all: "\<And>x. x \<in> set ds \<Longrightarrow> isDigit x" using assms(1) by (simp add: list_all_iff)
  have t: "takeWhile isDigit t = []" "dropWhile isDigit t = t"
    using assms(2) by (cases t; simp)+
  show "takeWhile isDigit (ds @ t) = ds" using all t by (simp add: takeWhile_append2)
  show "dropWhile isDigit (ds @ t) = t" using all t by (simp add: dropWhile_append2)
qed

lemma unsignedPrefix_digit_start:
  assumes "isDigit d"
  shows "unsignedPrefix (d # r) =
     (let ds = takeWhile isDigit (d # r); r1 = dropWhile isDigit (d # r)
      in case r1 of
            [] \<Rightarrow> Some ds
          | c # r' \<Rightarrow>
              if c = CHR ''.'' then
                Some (ds @ [c] @ takeWhile isDigit r' @ exponentPart (dropWhile isDigit r'))
              else Some (ds @ exponentPart r1))"
proof -
  have "d \<noteq> CHR ''I''" using assms by (auto simp: isDigit_def)
  then have "take 8 (d # r) \<noteq> ''Infinity''" by simp
  moreover have "takeWhile isDigit (d # r) \<noteq> []" using assms by simp
  ultimately show ?thesis
    unfolding unsignedPrefix_def Let_def by (simp only: if_False if_True not_False_eq_True)
qed

lemma floatPrefix_digits:
  assumes "ds \<noteq> []" "list_all isDigit ds" "t = [] \<or> hd t \<notin> set ''0123456789.eE''"
  shows "floatPrefix (ds @ t) = Some ds"
proof -
  obtain d ds' where ds: "ds = d # ds'" using assms(1) by (cases ds) auto
  with assms(2) have d: "isDigit d" by simp
  then have dw: "\<not> isWhiteSpace d" "d \<noteq> CHR ''+''" "d \<noteq> CHR ''-''"
    by (auto simp: isDigit_def isWhiteSpace_def)
  have nd: "t = [] \<or> \<not> isDigit (hd t)" using assms(3) by (auto simp: isDigit_def)
  note tw = takeWhile_digits [OF assms(2) nd]
  have "unsignedPrefix (d # ds' @ t) = Some ds"
  proof (cases t)
    case Nil
    show ?thesis
      using tw Nil unfolding unsignedPrefix_digit_start [OF d] ds Let_def by simp
  next
    case (Cons c r)
    with assms(3) have c: "c \<noteq> CHR ''.''" "c \<noteq> CHR ''e''" "c \<noteq> CHR ''E''" by auto
    then have "exponentPart (c # r) = []" by (simp add: exponentPart_def)
    then show ?thesis
      using tw Cons c unfolding unsignedPrefix_digit_start [OF d] ds Let_def by simp
  qed
  then show ?thesis
    using ds dw by (simp add: floatPrefix_def)
qed

text \<open>
  Claim C10. A word other than the empty word and the braces is a Number whenever
  \<^verbatim>\<open>parseFloat\<close> finds a decimal literal at its start, and the Number is the one that
  this prefix denotes, whatever follows the prefix; only a word without such a prefix is
  a Symbol (leading slash) or an Operator. A row of digits followed by a character that
  is not a digit, a point or an exponent mark is such a prefix: \<^verbatim>\<open>3abc\<close> is the Number
  3 and \<^verbatim>\<open>1/2\<close> is the Number 1.
\<close>

theorem number_prefix_classification:
  "(w \<noteq> [] \<and> w \<noteq> ''{'' \<and> w \<noteq> ''}'' \<longrightarrow>
      (\<forall>p. floatPrefix w = Some p \<longrightarrow> parse n numOf w s = eval n (Num (numOf p)) s) \<and>
      (floatPrefix w = None \<longrightarrow>
         parse n numOf w s =
           (if hd w = CHR ''/'' then eval n (Symbol (tl w)) s else eval n (Operator w) s))) \<and>
   (ds \<noteq> [] \<and> list_all isDigit ds \<and> (t = [] \<or> hd t \<notin> set ''0123456789.eE'') \<longrightarrow>
      floatPrefix (ds @ t) = Some ds) \<and>
   floatPrefix ''3abc'' = Some ''3'' \<and>
   floatPrefix ''1/2'' = Some ''1'' \<and>
   finalStack (run (Suc m) digitsValue ''3abc'') = Some [Num 3] \<and>
   finalStack (run (Suc m) digitsValue ''1/2'') = Some [Num 1]"
proof (intro conjI impI allI)
  fix p assume "w \<noteq> [] \<and> w \<noteq> ''{'' \<and> w \<noteq> ''}''" "floatPrefix w = Some p"
  then show "parse n numOf w s = eval n (Num (numOf p)) s"
    by (simp add: parse_def parseFloat_def)
next
  assume "w \<noteq> [] \<and> w \<noteq> ''{'' \<and> w \<noteq> ''}''" "floatPrefix w = None"
  then show "parse n numOf w s =
           (if hd w = CHR ''/'' then eval n (Symbol (tl w)) s else eval n (Operator w) s)"
    by (simp add: parse_def parseFloat_def)
next
  assume "ds \<noteq> [] \<and> list_all isDigit ds \<and> (t = [] \<or> hd t \<notin> set ''0123456789.eE'')"
  then show "floatPrefix (ds @ t) = Some ds"
    using floatPrefix_digits [of ds t] by blast
next
  show "floatPrefix ''3abc'' = Some ''3''" by (simp add: token_defs)
next
  show "floatPrefix ''1/2'' = Some ''1''" by (simp add: token_defs)
next
  show "finalStack (run (Suc m) digitsValue ''3abc'') = Some [Num 3]"
    by (simp add: token_defs machine_defs)
next
  show "finalStack (run (Suc m) digitsValue ''1/2'') = Some [Num 1]"
    by (simp add: token_defs machine_defs)
qed

theorem number_prefix_classification_witness:
  "''3abc'' \<noteq> [] \<and> ''3abc'' \<noteq> ''{'' \<and> ''3abc'' \<noteq> ''}'' \<and> floatPrefix ''3abc'' = Some ''3'' \<and>
   parse (Suc 0) digitsValue ''3abc'' initialState = eval (Suc 0) (Num 3) initialState \<and>
   ''foo'' \<noteq> [] \<and> ''foo'' \<noteq> ''{'' \<and> ''foo'' \<noteq> ''}'' \<and> floatPrefix ''foo'' = None \<and>
   parse (Suc 0) digitsValue ''foo'' initialState
     = eval (Suc 0) (Operator ''foo'') initialState \<and>
   ''12'' \<noteq> [] \<and> list_all isDigit ''12'' \<and> hd ''/x'' \<notin> set ''0123456789.eE'' \<and>
   floatPrefix (''12'' @ ''/x'') = Some ''12''"
proof -
  have a: "''3abc'' \<noteq> [] \<and> ''3abc'' \<noteq> ''{'' \<and> ''3abc'' \<noteq> ''}''"
    and b: "floatPrefix ''3abc'' = Some ''3''"
    and c: "''foo'' \<noteq> [] \<and> ''foo'' \<noteq> ''{'' \<and> ''foo'' \<noteq> ''}''"
    and d: "floatPrefix ''foo'' = None"
    and e: "''12'' \<noteq> [] \<and> list_all isDigit ''12'' \<and> (''/x'' = [] \<or> hd ''/x'' \<notin> set ''0123456789.eE'')"
    by (simp_all add: token_defs)
  have v: "digitsValue ''3'' = 3" by (simp add: digitsValue_def)
  from a b have "parse (Suc 0) digitsValue ''3abc'' initialState
                   = eval (Suc 0) (Num (digitsValue ''3'')) initialState"
    using number_prefix_classification [of "''3abc''" "Suc 0" digitsValue initialState]
    by blast
  moreover from c d have "parse (Suc 0) digitsValue ''foo'' initialState
     = (if hd ''foo'' = CHR ''/'' then eval (Suc 0) (Symbol (tl ''foo'')) initialState
        else eval (Suc 0) (Operator ''foo'') initialState)"
    using number_prefix_classification [of "''foo''" "Suc 0" digitsValue initialState]
    by blast
  moreover from e have "floatPrefix (''12'' @ ''/x'') = Some ''12''"
    using number_prefix_classification [of _ _ _ _ "''12''" "''/x''"]
    by blast
  ultimately show ?thesis using a b c d e v by simp
qed

section \<open>The definition operator\<close>

lemma eval_data:
  "blocks s = [] \<Longrightarrow> (\<forall>op. v \<noteq> Operator op) \<Longrightarrow> eval (Suc n) v s = pushThen v s"
  by (cases v) simp_all

text \<open>
  Claim C2. \<^verbatim>\<open>def\<close> never replaces a binding: whenever it returns, the scopes under
  the top one are as before and the top scope still maps every name it bound to the same
  value. With a Symbol and a value that is not an Operator on the stack, it binds the
  name to the value in the top scope when reading the name there gives nothing, and
  otherwise changes no scope. So \<^verbatim>\<open>/x 10 def x\<close> and \<^verbatim>\<open>/x 10 def /x 20 def x\<close> both
  end with the Number 10 on the stack.
\<close>

theorem def_never_overwrites:
  "(vars s \<noteq> [] \<and> snd (opDef n s) = Ok s' \<longrightarrow>
      vars s' \<noteq> [] \<and> butlast (vars s') = butlast (vars s) \<and>
      (\<forall>k x. last (vars s) k = Some x \<longrightarrow> last (vars s') k = Some x)) \<and>
   (blocks s = [] \<and> vars s \<noteq> [] \<and> stack s = below @ [Symbol key, v] \<and>
    (\<forall>op. v \<noteq> Operator op) \<longrightarrow>
      snd (opDef (Suc n) s) =
        Ok (s\<lparr>stack := below,
              vars := if getProp (last (vars s)) key = None
                      then butlast (vars s) @ [(last (vars s))(key \<mapsto> v)]
                      else vars s\<rparr>)) \<and>
   finalStack (run (Suc (Suc n)) digitsValue ''/x 10 def x'') = Some [Num 10] \<and>
   finalStack (run (Suc (Suc n)) digitsValue ''/x 10 def /x 20 def x'') = Some [Num 10]"
proof (intro conjI impI)
  assume a: "vars s \<noteq> [] \<and> snd (opDef n s) = Ok s'"
  then have "vars s \<noteq> []" by (rule conjunct1)
  then have "tracks s (opDef n s)" by (rule tracks_eval(4))
  moreover from a have "snd (opDef n s) = Ok s'" by (rule conjunct2)
  ultimately have "settles (vars s) (vars s')" unfolding tracks_def by blast
  then obtain top where v: "vars s' = butlast (vars s) @ [top]" and le: "last (vars s) \<subseteq>\<^sub>m top"
    unfolding settles_def by blast
  from v show "vars s' \<noteq> []" by simp
  from v show "butlast (vars s') = butlast (vars s)" by simp
  from v le show "\<forall>k x. last (vars s) k = Some x \<longrightarrow> last (vars s') k = Some x"
    by (auto simp: map_le_def dom_def)
next
  assume a: "blocks s = [] \<and> vars s \<noteq> [] \<and> stack s = below @ [Symbol key, v] \<and>
    (\<forall>op. v \<noteq> Operator op)"
  then have "eval (Suc n) v (s\<lparr>stack := below @ [Symbol key]\<rparr>)
               = pushThen v (s\<lparr>stack := below @ [Symbol key]\<rparr>)"
    by (intro eval_data) simp_all
  with a show "snd (opDef (Suc n) s) =
        Ok (s\<lparr>stack := below,
              vars := if getProp (last (vars s)) key = None
                      then butlast (vars s) @ [(last (vars s))(key \<mapsto> v)]
                      else vars s\<rparr>)"
    by (simp add: opDef.simps popThen_def pushThen_def stateEvent_def Let_def butlast_append)
next
  show "finalStack (run (Suc (Suc n)) digitsValue ''/x 10 def x'') = Some [Num 10]"
    by (simp add: token_defs machine_defs)
next
  show "finalStack (run (Suc (Suc n)) digitsValue ''/x 10 def /x 20 def x'') = Some [Num 10]"
    by (simp add: token_defs machine_defs)
qed

theorem def_never_overwrites_witness:
  "vars (\<lparr>stack = [Symbol ''x'', Num 20], vars = [baseScope(''x'' \<mapsto> Num 10)], blocks = []\<rparr>
           :: rat VmState) \<noteq> [] \<and>
   snd (opDef (Suc 0)
          (\<lparr>stack = [Symbol ''x'', Num 20], vars = [baseScope(''x'' \<mapsto> Num 10)], blocks = []\<rparr>
             :: rat VmState))
     = Ok \<lparr>stack = [], vars = [baseScope(''x'' \<mapsto> Num 10)], blocks = []\<rparr> \<and>
   last (vars (\<lparr>stack = [], vars = [baseScope(''x'' \<mapsto> Num 10)], blocks = []\<rparr> :: rat VmState))
     ''x'' = Some (Num 10) \<and>
   snd (opDef (Suc 0)
          (\<lparr>stack = [Symbol ''y'', Num 20], vars = [baseScope(''x'' \<mapsto> Num 10)], blocks = []\<rparr>
             :: rat VmState))
     = Ok \<lparr>stack = [], vars = [baseScope(''x'' \<mapsto> Num 10, ''y'' \<mapsto> Num 20)], blocks = []\<rparr>"
proof -
  let ?sc = "baseScope(''x'' \<mapsto> Num 10) :: rat scope"
  let ?s = "\<lparr>stack = [Symbol ''x'', Num 20], vars = [?sc], blocks = []\<rparr> :: rat VmState"
  let ?t = "\<lparr>stack = [Symbol ''y'', Num 20], vars = [?sc], blocks = []\<rparr> :: rat VmState"
  let ?s' = "\<lparr>stack = [], vars = [?sc], blocks = []\<rparr> :: rat VmState"
  have bound: "getProp ?sc ''x'' = Some (Num 10)" "getProp ?sc ''y'' = None"
    by (simp_all add: getProp_def baseScope_def objectPrototypeKeys_def)
  have hs: "blocks ?s = [] \<and> vars ?s \<noteq> [] \<and> stack ?s = [] @ [Symbol ''x'', Num 20] \<and>
            (\<forall>op. (Num 20 :: rat val) \<noteq> Operator op)"
    by simp
  have ht: "blocks ?t = [] \<and> vars ?t \<noteq> [] \<and> stack ?t = [] @ [Symbol ''y'', Num 20] \<and>
            (\<forall>op. (Num 20 :: rat val) \<noteq> Operator op)"
    by simp
  from hs def_never_overwrites [of ?s 0 ?s' "[]" "''x''" "Num 20"]
  have "snd (opDef (Suc 0) ?s) =
          Ok (?s\<lparr>stack := [],
                 vars := if getProp (last (vars ?s)) ''x'' = None
                         then butlast (vars ?s) @ [(last (vars ?s))(''x'' \<mapsto> Num 20)]
                         else vars ?s\<rparr>)"
    by blast
  with bound have run_s: "snd (opDef (Suc 0) ?s) = Ok ?s'" by simp
  from ht def_never_overwrites [of ?t 0 ?s' "[]" "''y''" "Num 20"]
  have "snd (opDef (Suc 0) ?t) =
          Ok (?t\<lparr>stack := [],
                 vars := if getProp (last (vars ?t)) ''y'' = None
                         then butlast (vars ?t) @ [(last (vars ?t))(''y'' \<mapsto> Num 20)]
                         else vars ?t\<rparr>)"
    by blast
  with bound have run_t:
    "snd (opDef (Suc 0) ?t)
       = Ok \<lparr>stack = [], vars = [?sc(''y'' \<mapsto> Num 20)], blocks = []\<rparr>"
    by simp
  have "vars ?s \<noteq> [] \<and> snd (opDef (Suc 0) ?s) = Ok ?s'" using run_s by simp
  with def_never_overwrites [of ?s "Suc 0" ?s' "[]" "''x''" "Num 20"]
  have "\<forall>k x. last (vars ?s) k = Some x \<longrightarrow> last (vars ?s') k = Some x" by blast
  then have "last (vars ?s') ''x'' = Some (Num 10)" by simp
  with run_s run_t show ?thesis by simp
qed

section \<open>Exchange\<close>

text \<open>
  Claim C5. With no block open and at least two values on the stack, \<^verbatim>\<open>exch\<close> pops
  the top value, pops the second value, evaluates the second value, pushes the former top
  and then pushes the second value again. Whenever it returns, the former second value is
  on top of the stack and the former top is right under it; and it does return when the
  second value is not an Operator, with the stack grown by one copy of the second value.
\<close>

theorem exch_swaps_after_evaluating:
  "blocks s = [] \<and> stack s = below @ [second, topmost] \<longrightarrow>
     opExch n s =
       yield [StackPopEv (s\<lparr>stack := below @ [second]\<rparr>) topmost,
              StackPopEv (s\<lparr>stack := below\<rparr>) second]
         (andThen (andThen (eval n second (s\<lparr>stack := below\<rparr>)) (pushThen topmost))
                  (pushThen second)) \<and>
     (\<forall>evs s'. opExch n s = (evs, Ok s') \<longrightarrow> (\<exists>lower. stack s' = lower @ [topmost, second])) \<and>
     ((\<forall>op. second \<noteq> Operator op) \<longrightarrow>
        snd (opExch (Suc n) s) = Ok (s\<lparr>stack := below @ [second, topmost, second]\<rparr>))"
proof (intro impI)
  assume a: "blocks s = [] \<and> stack s = below @ [second, topmost]"
  let ?r = "eval n second (s\<lparr>stack := below\<rparr>)"
  have steps: "opExch n s =
       yield [StackPopEv (s\<lparr>stack := below @ [second]\<rparr>) topmost,
              StackPopEv (s\<lparr>stack := below\<rparr>) second]
         (andThen (andThen ?r (pushThen topmost)) (pushThen second))"
    using a by (simp add: opExch.simps popThen_def Let_def butlast_append)
  have net: "\<exists>lower. stack s' = lower @ [topmost, second]" if "opExch n s = (evs, Ok s')" for evs s'
  proof -
    obtain evs1 out1 where r: "?r = (evs1, out1)" by (cases ?r)
    show ?thesis
    proof (cases out1)
      case (Ok s1)
      with that steps r have "s' = s1\<lparr>stack := stack s1 @ [topmost, second]\<rparr>"
        by (simp add: pushThen_def stateEvent_def)
      then show ?thesis by simp
    next
      case (Fail e)
      with that steps r show ?thesis by simp
    next
      case Diverge
      with that steps r show ?thesis by simp
    qed
  qed
  have data: "snd (opExch (Suc n) s) = Ok (s\<lparr>stack := below @ [second, topmost, second]\<rparr>)"
    if "\<forall>op. second \<noteq> Operator op"
  proof -
    have "eval (Suc n) second (s\<lparr>stack := below\<rparr>) = pushThen second (s\<lparr>stack := below\<rparr>)"
      using a that by (intro eval_data) simp_all
    with a show ?thesis
      by (simp add: opExch.simps popThen_def pushThen_def stateEvent_def Let_def butlast_append)
  qed
  from steps net data show
    "opExch n s =
       yield [StackPopEv (s\<lparr>stack := below @ [second]\<rparr>) topmost,
              StackPopEv (s\<lparr>stack := below\<rparr>) second]
         (andThen (andThen (eval n second (s\<lparr>stack := below\<rparr>)) (pushThen topmost))
                  (pushThen second)) \<and>
     (\<forall>evs s'. opExch n s = (evs, Ok s') \<longrightarrow> (\<exists>lower. stack s' = lower @ [topmost, second])) \<and>
     ((\<forall>op. second \<noteq> Operator op) \<longrightarrow>
        snd (opExch (Suc n) s) = Ok (s\<lparr>stack := below @ [second, topmost, second]\<rparr>))"
    by blast
qed

theorem exch_swaps_after_evaluating_witness:
  "blocks (\<lparr>stack = [Num 7, Num 1, Num 2], vars = [baseScope], blocks = []\<rparr> :: rat VmState) = [] \<and>
   stack (\<lparr>stack = [Num 7, Num 1, Num 2], vars = [baseScope], blocks = []\<rparr> :: rat VmState)
     = [Num 7] @ [Num 1, Num 2] \<and>
   snd (opExch (Suc 0) (\<lparr>stack = [Num 7, Num 1, Num 2], vars = [baseScope], blocks = []\<rparr> :: rat VmState))
     = Ok \<lparr>stack = [Num 7, Num 1, Num 2, Num 1], vars = [baseScope], blocks = []\<rparr> \<and>
   finalStack (run (Suc (Suc 0)) digitsValue ''7 1 2 exch'') = Some [Num 7, Num 1, Num 2, Num 1]"
proof -
  let ?s = "\<lparr>stack = [Num 7, Num 1, Num 2], vars = [baseScope], blocks = []\<rparr> :: rat VmState"
  have h: "blocks ?s = [] \<and> stack ?s = [Num 7] @ [Num 1, Num 2]" by simp
  have d: "\<forall>op. (Num 1 :: rat val) \<noteq> Operator op" by simp
  from h d exch_swaps_after_evaluating [of ?s "[Num 7]" "Num 1" "Num 2" 0]
  have "snd (opExch (Suc 0) ?s) = Ok (?s\<lparr>stack := [Num 7] @ [Num 1, Num 2, Num 1]\<rparr>)"
    by blast
  moreover have "finalStack (run (Suc (Suc 0)) digitsValue ''7 1 2 exch'')
                   = Some [Num 7, Num 1, Num 2, Num 1]"
    by (simp add: token_defs machine_defs)
  ultimately show ?thesis by simp
qed

section \<open>Invoking a block\<close>

lemma findVar_cong: "vars s' = vars s \<Longrightarrow> findVar s' x = findVar s x"
  by (simp add: findVar_def)

lemma findVar_Some_vars: "findVar s x = Some v \<Longrightarrow> vars s \<noteq> []"
  by (auto simp: findVar_def)

text \<open>
  What invoking a block leaves behind, for any state with no block open in which the
  name is bound to a block.
\<close>

lemma invocation_restores_chain:
  "blocks s = [] \<and> findVar s name = Some (Block body) \<longrightarrow>
     eval (Suc n) (Operator name) s =
       andThen (andThen (stateEvent (s\<lparr>vars := vars s @ [Map.empty]\<rparr>)) (evalAll n body))
               (\<lambda>s'. stateEvent (s'\<lparr>vars := butlast (vars s')\<rparr>)) \<and>
     (\<forall>s'. snd (eval (Suc n) (Operator name) s) = Ok s' \<longrightarrow>
        vars s' = vars s \<and> blocks s' = [] \<and>
        (\<forall>x m. findVar s x = None \<longrightarrow>
           eval (Suc m) (Operator x) s' = ([], Fail (NotDefined x))))"
proof (intro impI)
  assume a: "blocks s = [] \<and> findVar s name = Some (Block body)"
  then have closed: "blocks s = []" and found: "findVar s name = Some (Block body)"
    by blast+
  from found have ne: "vars s \<noteq> []" by (rule findVar_Some_vars)
  let ?s1 = "s\<lparr>vars := vars s @ [Map.empty]\<rparr>"
  have steps: "eval (Suc n) (Operator name) s =
       andThen (andThen (stateEvent ?s1) (evalAll n body))
               (\<lambda>s'. stateEvent (s'\<lparr>vars := butlast (vars s')\<rparr>))"
    using closed found by simp
  have body: "tracks ?s1 (evalAll n body ?s1)"
    by (rule tracks_eval(2)) simp
  have after: "vars s' = vars s \<and> blocks s' = [] \<and>
        (\<forall>x m. findVar s x = None \<longrightarrow>
           eval (Suc m) (Operator x) s' = ([], Fail (NotDefined x)))"
    if ret: "snd (eval (Suc n) (Operator name) s) = Ok s'" for s'
  proof -
    obtain evs out where r: "evalAll n body ?s1 = (evs, out)" by (cases "evalAll n body ?s1")
    show ?thesis
    proof (cases out)
      case (Ok s2)
      with body r have "settles (vars s @ [Map.empty]) (vars s2)" and b2: "blocks s2 = []"
        using closed unfolding tracks_def by auto
      then have "butlast (vars s2) = vars s" by (simp add: settles_pop)
      moreover from ret steps r Ok have "s' = s2\<lparr>vars := butlast (vars s2)\<rparr>"
        by (simp add: stateEvent_def)
      ultimately have v: "vars s' = vars s" and b: "blocks s' = []" using b2 by simp_all
      have "eval (Suc m) (Operator x) s' = ([], Fail (NotDefined x))"
        if "findVar s x = None" for x m
        using that b findVar_cong [OF v, of x] by simp
      with v b show ?thesis by blast
    next
      case (Fail e)
      with ret steps r show ?thesis by (simp add: stateEvent_def)
    next
      case Diverge
      with ret steps r show ?thesis by (simp add: stateEvent_def)
    qed
  qed
  from steps after show
    "eval (Suc n) (Operator name) s =
       andThen (andThen (stateEvent (s\<lparr>vars := vars s @ [Map.empty]\<rparr>)) (evalAll n body))
               (\<lambda>s'. stateEvent (s'\<lparr>vars := butlast (vars s')\<rparr>)) \<and>
     (\<forall>s'. snd (eval (Suc n) (Operator name) s) = Ok s' \<longrightarrow>
        vars s' = vars s \<and> blocks s' = [] \<and>
        (\<forall>x m. findVar s x = None \<longrightarrow>
           eval (Suc m) (Operator x) s' = ([], Fail (NotDefined x))))"
    by blast
qed

text \<open>
  Claim C6, as the specification words it, fails for a name that an enclosing scope
  binds as well: in \<^verbatim>\<open>/y 1 def /f { /y 5 def y } def f y\<close> the body binds \<^verbatim>\<open>y\<close> in
  its own scope and reads 5, and the \<^verbatim>\<open>y\<close> after the call does not throw but reads
  the 1 of the base scope.
\<close>

theorem shadowed_name_counterexample:
  "finalStack (run (Suc (Suc (Suc 0))) digitsValue ''/y 1 def /f { /y 5 def y } def f y'')
     = Some [Num 5, Num 1] \<and>
   failure (run (Suc (Suc (Suc 0))) digitsValue ''/y 1 def /f { /y 5 def y } def f y'') = None"
  by (simp add: token_defs machine_defs)

text \<open>
  Claim C6, amended. Evaluating an Operator that is bound to a Block pushes one fresh
  empty scope, evaluates the values of the Block in order and pops that scope. When the
  call returns, the scope chain is the one it started with and no block is open, so a
  name that no scope of the chain bound before the call, whatever the body defined under
  it, is still unbound: looking it up as an Operator throws the undefined-operation
  error. In the run \<^verbatim>\<open>/f { /y 5 def y } def f\<close> the body binds \<^verbatim>\<open>y\<close> and reads it
  back as 5; a following \<^verbatim>\<open>y\<close> throws \<^verbatim>\<open>y is not a defined operation\<close>.
\<close>

theorem block_invocation_scope:
  "(blocks s = [] \<and> findVar s name = Some (Block body) \<longrightarrow>
      eval (Suc n) (Operator name) s =
        andThen (andThen (stateEvent (s\<lparr>vars := vars s @ [Map.empty]\<rparr>)) (evalAll n body))
                (\<lambda>s'. stateEvent (s'\<lparr>vars := butlast (vars s')\<rparr>)) \<and>
      (\<forall>s'. snd (eval (Suc n) (Operator name) s) = Ok s' \<longrightarrow>
         vars s' = vars s \<and> blocks s' = [] \<and>
         (\<forall>x m. findVar s x = None \<longrightarrow>
            eval (Suc m) (Operator x) s' = ([], Fail (NotDefined x))))) \<and>
   finalStack (run (Suc (Suc (Suc k))) digitsValue ''/f { /y 5 def y } def f'') = Some [Num 5] \<and>
   failure (run (Suc (Suc (Suc k))) digitsValue ''/f { /y 5 def y } def f y'')
     = Some (NotDefined ''y'')"
proof -
  have "finalStack (run (Suc (Suc (Suc k))) digitsValue ''/f { /y 5 def y } def f'')
          = Some [Num 5]"
    by (simp add: token_defs machine_defs)
  moreover have "failure (run (Suc (Suc (Suc k))) digitsValue ''/f { /y 5 def y } def f y'')
                   = Some (NotDefined ''y'')"
    by (simp add: token_defs machine_defs)
  ultimately show ?thesis using invocation_restores_chain [of s name body n] by blast
qed

theorem block_invocation_scope_witness:
  "blocks (\<lparr>stack = [],
            vars = [baseScope(''f'' \<mapsto> Block [Symbol ''y'', Num 5, Operator ''def'', Operator ''y''])],
            blocks = []\<rparr> :: rat VmState) = [] \<and>
   findVar (\<lparr>stack = [],
             vars = [baseScope(''f'' \<mapsto> Block [Symbol ''y'', Num 5, Operator ''def'', Operator ''y''])],
             blocks = []\<rparr> :: rat VmState) ''f''
     = Some (Block [Symbol ''y'', Num 5, Operator ''def'', Operator ''y'']) \<and>
   findVar (\<lparr>stack = [],
             vars = [baseScope(''f'' \<mapsto> Block [Symbol ''y'', Num 5, Operator ''def'', Operator ''y''])],
             blocks = []\<rparr> :: rat VmState) ''y'' = None \<and>
   snd (eval (Suc (Suc (Suc 0))) (Operator ''f'')
          (\<lparr>stack = [],
            vars = [baseScope(''f'' \<mapsto> Block [Symbol ''y'', Num 5, Operator ''def'', Operator ''y''])],
            blocks = []\<rparr> :: rat VmState))
     = Ok \<lparr>stack = [Num 5],
           vars = [baseScope(''f'' \<mapsto> Block [Symbol ''y'', Num 5, Operator ''def'', Operator ''y''])],
           blocks = []\<rparr> \<and>
   eval (Suc 0) (Operator ''y'')
          (\<lparr>stack = [Num 5],
            vars = [baseScope(''f'' \<mapsto> Block [Symbol ''y'', Num 5, Operator ''def'', Operator ''y''])],
            blocks = []\<rparr> :: rat VmState)
     = ([], Fail (NotDefined ''y'')) \<and>
   finalStack (run (Suc (Suc (Suc 0))) digitsValue ''/f { /y 5 def y } def f'') = Some [Num 5] \<and>
   failure (run (Suc (Suc (Suc 0))) digitsValue ''/f { /y 5 def y } def f y'')
     = Some (NotDefined ''y'')"
proof -
  let ?body = "[Symbol ''y'', Num 5, Operator ''def'', Operator ''y''] :: rat val list"
  let ?s = "\<lparr>stack = [], vars = [baseScope(''f'' \<mapsto> Block ?body)], blocks = []\<rparr> :: rat VmState"
  let ?s' = "\<lparr>stack = [Num 5], vars = [baseScope(''f'' \<mapsto> Block ?body)], blocks = []\<rparr> :: rat VmState"
  have h: "blocks ?s = [] \<and> findVar ?s ''f'' = Some (Block ?body)"
    by (simp add: findVar_def getProp_def baseScope_def objectPrototypeKeys_def)
  have u: "findVar ?s ''y'' = None"
    by (simp add: findVar_def getProp_def baseScope_def objectPrototypeKeys_def)
  have r: "snd (eval (Suc (Suc (Suc 0))) (Operator ''f'') ?s) = Ok ?s'"
    by (simp add: machine_defs)
  from h r u block_invocation_scope [of ?s "''f''" ?body "Suc (Suc 0)" 0]
  have "eval (Suc 0) (Operator ''y'') ?s' = ([], Fail (NotDefined ''y''))"
    by blast
  moreover from block_invocation_scope [of ?s "''f''" ?body "Suc (Suc 0)" 0]
  have "finalStack (run (Suc (Suc (Suc 0))) digitsValue ''/f { /y 5 def y } def f'')
                   = Some [Num 5]"
    and "failure (run (Suc (Suc (Suc 0))) digitsValue ''/f { /y 5 def y } def f y'')
                   = Some (NotDefined ''y'')"
    by blast+
  ultimately show ?thesis using h u r by simp
qed

section \<open>The base scope\<close>

lemma tracks_follows: "tracks s r \<Longrightarrow> follows (vars s) r"
  unfolding tracks_def follows_def by blast

lemma follows_shift:
  assumes "settles vs vs1" "follows vs1 r"
  shows "follows vs r"
  unfolding follows_def
proof (intro conjI ballI allI impI)
  fix s' assume "s' \<in> set (evStates (fst r))"
  with assms(2) have "grows vs1 (vars s')" unfolding follows_def by blast
  with assms(1) show "grows vs (vars s')" by (rule settles_grows_trans)
next
  fix s' assume "snd r = Ok s'"
  with assms(2) have "settles vs1 (vars s')" unfolding follows_def by blast
  with assms(1) show "settles vs (vars s')" by (rule settles_trans)
qed

lemma follows_yield:
  assumes "\<And>s'. s' \<in> set (evStates evs) \<Longrightarrow> grows vs (vars s')" and "follows vs r"
  shows "follows vs (yield evs r)"
proof (cases r)
  case (Pair evs' out)
  with assms show ?thesis unfolding follows_def by auto
qed

lemma follows_andThen:
  assumes "follows vs r"
    and "\<And>s1. settles vs (vars s1) \<Longrightarrow> follows (vars s1) (k s1)"
  shows "follows vs (andThen r k)"
proof (cases r)
  case (Pair evs out)
  show ?thesis
  proof (cases out)
    case (Ok s1)
    with Pair assms(1) have st: "settles vs (vars s1)"
      and evs: "\<And>s'. s' \<in> set (evStates evs) \<Longrightarrow> grows vs (vars s')"
      by (simp_all add: follows_def)
    from st have "follows (vars s1) (k s1)" by (rule assms(2))
    with st have "follows vs (k s1)" by (rule follows_shift)
    with evs have "follows vs (yield evs (k s1))" by (rule follows_yield)
    then show ?thesis using Pair Ok by simp
  next
    case (Fail e)
    with Pair assms(1) show ?thesis by (simp add: follows_def)
  next
    case Diverge
    with Pair assms(1) show ?thesis by (simp add: follows_def)
  qed
qed

lemma follows_eval:
  fixes s :: "('n::{plus,minus,times,inverse,ord,zero,one}) VmState"
  shows "vars s \<noteq> [] \<Longrightarrow> follows (vars s) (eval n v s)"
  by (rule tracks_follows) (rule tracks_eval(1))

lemma follows_stateEvent: "settles vs (vars s') \<Longrightarrow> follows vs (stateEvent s')"
  by (simp add: follows_def stateEvent_def settles_grows)

lemma follows_parse:
  fixes s :: "('n::{plus,minus,times,inverse,ord,zero,one}) VmState"
  assumes ne: "vars s \<noteq> []"
  shows "follows (vars s) (parse n numOf w s)"
proof -
  have same: "settles (vars s) (vars s)" using ne by (rule settles_refl)
  have ev: "follows (vars s) (eval n v s)" for v using ne by (rule follows_eval)
  have close: "follows (vars s)
      (yield [StateEv (s\<lparr>blocks := butlast (blocks s)\<rparr>)]
         (eval n (Block (last (blocks s))) (s\<lparr>blocks := butlast (blocks s)\<rparr>)))"
  proof (rule follows_yield)
    fix s' assume "s' \<in> set (evStates [StateEv (s\<lparr>blocks := butlast (blocks s)\<rparr>)])"
    then show "grows (vars s) (vars s')" using same by (simp add: settles_grows)
  next
    have "follows (vars (s\<lparr>blocks := butlast (blocks s)\<rparr>))
            (eval n (Block (last (blocks s))) (s\<lparr>blocks := butlast (blocks s)\<rparr>))"
      by (rule follows_eval) (simp add: ne)
    then show "follows (vars s)
            (eval n (Block (last (blocks s))) (s\<lparr>blocks := butlast (blocks s)\<rparr>))"
      by simp
  qed
  have under: "follows (vars s) ([StateEv s], Fail BlockStackUnderflow)"
    using same by (simp add: follows_def settles_grows)
  have st: "follows (vars s) (stateEvent s)"
       "follows (vars s) (stateEvent (s\<lparr>blocks := blocks s @ [[]]\<rparr>))"
    using same by (simp_all add: follows_stateEvent)
  show ?thesis
    unfolding parse_def using st close under ev
    by (simp split: option.split)
qed

lemma follows_parseAll:
  fixes s :: "('n::{plus,minus,times,inverse,ord,zero,one}) VmState"
  shows "vars s \<noteq> [] \<Longrightarrow> follows (vars s) (parseAll n numOf ws s)"
proof (induction ws arbitrary: s)
  case Nil
  then show ?case by (simp add: follows_def settles_refl)
next
  case (Cons w ws)
  have "follows (vars s) (andThen (parse n numOf w s) (parseAll n numOf ws))"
  proof (rule follows_andThen)
    show "follows (vars s) (parse n numOf w s)" using Cons.prems by (rule follows_parse)
  next
    fix s1 :: "'n VmState" assume "settles (vars s) (vars s1)"
    then have "vars s1 \<noteq> []" by (rule settles_nonempty)
    then show "follows (vars s1) (parseAll n numOf ws s1)" by (rule Cons.IH)
  qed
  then show ?case by simp
qed

lemma follows_run: "follows [baseScope] (run n numOf program)"
proof -
  have "follows (vars initialState) (parseAll n numOf (wordsOf program) initialState)"
    by (rule follows_parseAll) (simp add: initialState_def)
  then have "follows [baseScope] (parseAll n numOf (wordsOf program) initialState)"
    by (simp add: initialState_def)
  moreover have "grows [baseScope] (vars s')" if "s' \<in> set (evStates [StateEv initialState])" for s'
    using that by (simp add: initialState_def settles_grows settles_refl)
  ultimately show ?thesis unfolding run_def by (intro follows_yield)
qed

lemma nativesBound_baseScope: "nativesBound baseScope"
  by (simp add: nativesBound_def baseScope_def)

lemma nativesBound_le: "nativesBound a \<Longrightarrow> a \<subseteq>\<^sub>m b \<Longrightarrow> nativesBound b"
  unfolding nativesBound_def map_le_def by (metis domI)

lemma grows_base:
  assumes "grows [baseScope] vs'"
  shows "vs' \<noteq> [] \<and> nativesBound (hd vs')"
proof -
  from assms obtain t above where "vs' = t # above" "baseScope \<subseteq>\<^sub>m t"
    unfolding grows_def by auto
  then show ?thesis using nativesBound_le [OF nativesBound_baseScope] by simp
qed

lemma settles_base:
  assumes "settles [baseScope] vs'"
  shows "length vs' = 1 \<and> nativesBound (hd vs')"
proof -
  from assms obtain t where "vs' = [t]" "baseScope \<subseteq>\<^sub>m t"
    unfolding settles_def by auto
  then show ?thesis using nativesBound_le [OF nativesBound_baseScope] by simp
qed

text \<open>
  Claim C8. For every program, every state that a run shows has a scope chain with at
  least one scope whose first scope binds the nine operator names to their natives; and
  a run that returns ends with exactly that one scope. So no pop ever removes the base
  scope: each pop takes off a scope that was pushed above it.
\<close>

theorem base_scope_stays:
  "list_all (\<lambda>s. vars s \<noteq> [] \<and> nativesBound (hd (vars s)))
     (evStates (fst (run n numOf program))) \<and>
   (\<forall>s. snd (run n numOf program) = Ok s \<longrightarrow>
      length (vars s) = 1 \<and> nativesBound (hd (vars s)))"
proof -
  have f: "follows [baseScope] (run n numOf program)" by (rule follows_run)
  have "vars s \<noteq> [] \<and> nativesBound (hd (vars s))"
    if "s \<in> set (evStates (fst (run n numOf program)))" for s
  proof -
    from f that have "grows [baseScope] (vars s)" unfolding follows_def by blast
    then show ?thesis by (rule grows_base)
  qed
  moreover have "length (vars s) = 1 \<and> nativesBound (hd (vars s))"
    if "snd (run n numOf program) = Ok s" for s
  proof -
    from f that have "settles [baseScope] (vars s)" unfolding follows_def by blast
    then show ?thesis by (rule settles_base)
  qed
  ultimately show ?thesis unfolding list_all_iff by blast
qed

theorem base_scope_stays_witness:
  "(\<exists>s. snd (run (Suc (Suc (Suc 0))) digitsValue ''/f { /+ 5 def + } def f /+ 1 def'') = Ok s \<and>
        length (vars s) = 1 \<and> nativesBound (hd (vars s))) \<and>
   list_all (\<lambda>s. vars s \<noteq> [] \<and> nativesBound (hd (vars s)))
     (evStates (fst (run (Suc (Suc (Suc 0))) digitsValue ''/f { /+ 5 def + } def f /+ 1 def'')))"
proof -
  let ?r = "run (Suc (Suc (Suc 0))) digitsValue ''/f { /+ 5 def + } def f /+ 1 def''"
  have "\<exists>s. snd ?r = Ok s"
    by (simp add: token_defs machine_defs)
  then obtain s where "snd ?r = Ok s" ..
  with base_scope_stays [of "Suc (Suc (Suc 0))" digitsValue "''/f { /+ 5 def + } def f /+ 1 def''"]
  show ?thesis by blast
qed

section \<open>Display and re-reading of blocks\<close>

lemma split_str_nonempty: "split_str c w \<noteq> []"
  by (induction w) (auto split: list.splits)

lemma split_str_append: "split_str c (a @ c # b) = split_str c a @ split_str c b"
proof (induction a)
  case Nil
  show ?case by simp
next
  case (Cons x a)
  obtain w ws where sp: "split_str c a = w # ws"
    using split_str_nonempty [of c a] by (cases "split_str c a") auto
  with Cons show ?case by simp
qed

lemma split_str_whole: "c \<notin> set w \<Longrightarrow> split_str c w = [w]"
  by (induction w) auto

lemma split_join_words:
  "split_str CHR '' '' (join_words ts) =
     (if ts = [] then [[]] else concat (map (split_str CHR '' '') ts))"
  by (induction ts rule: join_words.induct) (simp_all add: split_str_append)

lemma no_newline_join:
  "(\<And>t. t \<in> set ts \<Longrightarrow> CHR 0x0A \<notin> set t) \<Longrightarrow> CHR 0x0A \<notin> set (join_words ts)"
  by (induction ts rule: join_words.induct) auto

lemma display_text:
  "reparsable numOf showNum v \<Longrightarrow>
     CHR 0x0A \<notin> set (serializeValue showNum v) \<and>
     split_str CHR '' '' (serializeValue showNum v) = displayWords showNum v"
proof (induction v)
  case (Num x)
  then show ?case by (simp add: plainWord_def split_str_whole)
next
  case (Operator w)
  then show ?case by (simp add: plainWord_def split_str_whole)
next
  case (Block vs)
  have each: "CHR 0x0A \<notin> set (serializeValue showNum v) \<and>
     split_str CHR '' '' (serializeValue showNum v) = displayWords showNum v"
    if "v \<in> set vs" for v
    using Block that by (simp add: list_all_iff)
  have nl: "CHR 0x0A \<notin> set (join_words (map (serializeValue showNum) vs))"
    by (rule no_newline_join) (use each in auto)
  have "map (split_str CHR '' '') (map (serializeValue showNum) vs) = map (displayWords showNum) vs"
    unfolding map_map comp_def by (rule map_cong) (use each in auto)
  then have inner: "split_str CHR '' '' (join_words (map (serializeValue showNum) vs)) =
      (if vs = [] then [[]] else concat (map (displayWords showNum) vs))"
    by (simp only: split_join_words map_is_Nil_conv)
  have "serializeValue showNum (Block vs) =
          ''{'' @ CHR '' '' # (join_words (map (serializeValue showNum) vs) @ CHR '' '' # ''}'')"
    by simp
  then have "split_str CHR '' '' (serializeValue showNum (Block vs)) =
          split_str CHR '' '' ''{'' @
            (split_str CHR '' '' (join_words (map (serializeValue showNum) vs)) @
               split_str CHR '' '' ''}'')"
    by (simp only: split_str_append)
  with inner have "split_str CHR '' '' (serializeValue showNum (Block vs))
                     = displayWords showNum (Block vs)"
    by simp
  with nl show ?case by simp
qed simp_all

lemma wordsOf_display:
  assumes "reparsable numOf showNum v"
  shows "wordsOf (serializeValue showNum v) = displayWords showNum v"
proof -
  from display_text [OF assms]
  have "split_str CHR 0x0A (serializeValue showNum v) = [serializeValue showNum v]"
    and "split_str CHR '' '' (serializeValue showNum v) = displayWords showNum v"
    by (simp_all add: split_str_whole)
  then show ?thesis by (simp add: wordsOf_def)
qed

lemma capture_open [simp]: "blocks (capture v s) \<noteq> []"
  by (simp add: capture_def)

lemma foldl_capture:
  "blocks s \<noteq> [] \<Longrightarrow>
   foldl (\<lambda>s v. capture v s) s vs = s\<lparr>blocks := butlast (blocks s) @ [last (blocks s) @ vs]\<rparr>"
proof (induction vs arbitrary: s)
  case Nil
  then show ?case by simp
next
  case (Cons v vs)
  have "foldl (\<lambda>s v. capture v s) (capture v s) vs =
          (capture v s)\<lparr>blocks := butlast (blocks (capture v s)) @ [last (blocks (capture v s)) @ vs]\<rparr>"
    by (rule Cons.IH) simp
  then show ?case by (simp add: capture_def)
qed

lemma display_parse:
  fixes s :: "('n::{plus,minus,times,inverse,ord,zero,one}) VmState"
  shows "reparsable numOf showNum v \<Longrightarrow>
     snd (parseAll (Suc n) numOf (displayWords showNum v @ later) s) =
     snd (andThen (eval (Suc n) v s) (parseAll (Suc n) numOf later))"
proof (induction v arbitrary: s later)
  case (Num x)
  then show ?case
    by (cases "blocks s = []") (simp_all add: parse_def plainWord_def snd_andThen)
next
  case (Operator w)
  then show ?case
    by (simp add: parse_def plainWord_def parseFloat_def snd_andThen)
next
  case (Block vs)
  have each: "snd (parseAll (Suc n) numOf (displayWords showNum v @ ws) t) =
     snd (parseAll (Suc n) numOf ws (capture v t))"
    if "v \<in> set vs" "blocks t \<noteq> []" for v ws and t :: "'n VmState"
  proof -
    from Block.prems that(1) have "reparsable numOf showNum v" by (simp add: list_all_iff)
    with that(1) have "snd (parseAll (Suc n) numOf (displayWords showNum v @ ws) t) =
        snd (andThen (eval (Suc n) v t) (parseAll (Suc n) numOf ws))"
      by (rule Block.IH)
    with that(2) show ?thesis by (simp add: capture_def stateEvent_def)
  qed
  have body: "snd (parseAll (Suc n) numOf (concat (map (displayWords showNum) us) @ ws) t) =
     snd (parseAll (Suc n) numOf ws (foldl (\<lambda>s v. capture v s) t us))"
    if "set us \<subseteq> set vs" "blocks t \<noteq> []" for us ws and t :: "'n VmState"
    using that
  proof (induction us arbitrary: t)
    case Nil
    show ?case by simp
  next
    case (Cons u us)
    have "snd (parseAll (Suc n) numOf (displayWords showNum u @ (concat (map (displayWords showNum) us) @ ws)) t)
            = snd (parseAll (Suc n) numOf (concat (map (displayWords showNum) us) @ ws) (capture u t))"
      using Cons.prems by (intro each) auto
    also have "\<dots> = snd (parseAll (Suc n) numOf ws (foldl (\<lambda>s v. capture v s) (capture u t) us))"
      using Cons.prems by (intro Cons.IH) auto
    finally show ?case by simp
  qed
  let ?s1 = "s\<lparr>blocks := blocks s @ [[]]\<rparr>"
  let ?inner = "if vs = [] then [[]] else concat (map (displayWords showNum) vs)"
  have inner: "snd (parseAll (Suc n) numOf (?inner @ ws) ?s1) =
     snd (parseAll (Suc n) numOf ws (s\<lparr>blocks := blocks s @ [vs]\<rparr>))" for ws
  proof (cases "vs = []")
    case True
    then show ?thesis by (simp add: parse_def stateEvent_def)
  next
    case False
    have "snd (parseAll (Suc n) numOf (concat (map (displayWords showNum) vs) @ ws) ?s1) =
        snd (parseAll (Suc n) numOf ws (foldl (\<lambda>s v. capture v s) ?s1 vs))"
      by (rule body) simp_all
    then show ?thesis using False by (simp add: foldl_capture)
  qed
  have "snd (parseAll (Suc n) numOf (displayWords showNum (Block vs) @ later) s) =
        snd (parseAll (Suc n) numOf (?inner @ (''}'' # later)) ?s1)"
    by (simp add: parse_def stateEvent_def)
  also have "\<dots> = snd (parseAll (Suc n) numOf (''}'' # later) (s\<lparr>blocks := blocks s @ [vs]\<rparr>))"
    by (rule inner)
  also have "\<dots> = snd (andThen (eval (Suc n) (Block vs) s) (parseAll (Suc n) numOf later))"
    by (simp add: parse_def snd_andThen)
  finally show ?case .
qed simp_all

text \<open>
  Claim C9, as the specification words it, fails: the display of a Symbol is its bare
  name without the slash, so the block captured from \<^verbatim>\<open>{ /x }\<close> is displayed as
  \<^verbatim>\<open>{ x }\<close>, and running that text captures a block that holds the Operator
  \<^verbatim>\<open>x\<close> instead of the Symbol.
\<close>

theorem symbol_display_counterexample:
  "finalStack (run (Suc 0) digitsValue ''{ /x }'') = Some [Block [Symbol ''x'']] \<and>
   serializeValue showDigits (Block [Symbol ''x'']) = ''{ x }'' \<and>
   finalStack (run (Suc 0) digitsValue (serializeValue showDigits (Block [Symbol ''x''])))
     = Some [Block [Operator ''x'']]"
  by (simp add: token_defs machine_defs)

text \<open>
  Claim C9, amended. For every block whose values, at any depth, are Operators read
  from source words, Numbers whose display is read back as the same Number, and blocks
  of such values (no Symbols), running the display of the block ends with exactly that
  block on the operand stack.
\<close>

theorem display_roundtrip_without_symbols:
  "list_all (reparsable numOf showNum) values \<longrightarrow>
     finalStack (run (Suc n) numOf (serializeValue showNum (Block values)))
       = Some [Block values]"
proof
  assume "list_all (reparsable numOf showNum) values"
  then have r: "reparsable numOf showNum (Block values)" by simp
  then have w: "wordsOf (serializeValue showNum (Block values))
                  = displayWords showNum (Block values) @ []"
    by (simp only: wordsOf_display append_Nil2)
  have "snd (parseAll (Suc n) numOf (displayWords showNum (Block values) @ []) initialState)
          = snd (andThen (eval (Suc n) (Block values) initialState) (parseAll (Suc n) numOf []))"
    using r by (rule display_parse)
  also have "\<dots> = Ok (initialState\<lparr>stack := [Block values]\<rparr>)"
    by (simp add: initialState_def pushThen_def stateEvent_def)
  finally show "finalStack (run (Suc n) numOf (serializeValue showNum (Block values)))
       = Some [Block values]"
    unfolding run_def finalStack_def w by simp
qed

theorem display_roundtrip_without_symbols_witness:
  "list_all (reparsable digitsValue showDigits)
     [Num 12, Block [Operator ''x'', Num 3, Operator ''+''], Block []] \<and>
   serializeValue showDigits (Block [Num 12, Block [Operator ''x'', Num 3, Operator ''+''], Block []])
     = ''{ 12 { x 3 + } {  } }'' \<and>
   finalStack (run (Suc 0) digitsValue ''{ 12 { x 3 + } {  } }'')
     = Some [Block [Num 12, Block [Operator ''x'', Num 3, Operator ''+''], Block []]]"
proof -
  let ?vs = "[Num 12, Block [Operator ''x'', Num 3, Operator ''+''], Block []] :: rat val list"
  have sh: "showDigits 12 = ''12''" "showDigits 3 = ''3''"
    by (simp_all add: showDigits_def showNat.simps)
  have h: "list_all (reparsable digitsValue showDigits) ?vs"
    by (simp add: sh plainWord_def token_defs)
  have t: "serializeValue showDigits (Block ?vs) = ''{ 12 { x 3 + } {  } }''"
    by (simp add: sh)
  from h display_roundtrip_without_symbols [of digitsValue showDigits ?vs 0]
  have "finalStack (run (Suc 0) digitsValue (serializeValue showDigits (Block ?vs)))
          = Some [Block ?vs]"
    by blast
  then have "finalStack (run (Suc 0) digitsValue ''{ 12 { x 3 + } {  } }'') = Some [Block ?vs]"
    unfolding t .
  with h t show ?thesis by (intro conjI)
qed

end
